theory Spec2Isabelle
  imports Main "HOL-Library.Word" "HOL-Library.Char_ord" "HOL-Library.List_Lexorder"
    "HOL-Library.Multiset"
begin

unbundle bit_operations_syntax

section \<open>Strings and paths of the Go standard library\<close>

text \<open>
  A Go string is a sequence of bytes: \<open>string\<close> (a \<open>char list\<close>) here. The archive filesystem
  of \<^verbatim>\<open>zipfs/zipfs.go\<close> calls \<^verbatim>\<open>path.Clean\<close>, \<^verbatim>\<open>path.Base\<close>, \<^verbatim>\<open>path.Dir\<close>, \<^verbatim>\<open>path.Join\<close>,
  \<^verbatim>\<open>fs.ValidPath\<close> and \<^verbatim>\<open>strings.TrimPrefix\<close>; they are embedded after the algorithms of the
  Go library, byte by byte.
\<close>

abbreviation sep :: char where
  "sep \<equiv> CHR ''/''"

abbreviation dot :: char where
  "dot \<equiv> CHR ''.''"

subsection \<open>\<^verbatim>\<open>utf8.ValidString\<close>\<close>

text \<open>
  The loop of \<^verbatim>\<open>utf8.ValidString\<close>: a byte below \<^verbatim>\<open>0x80\<close> is a character of its own; any
  other first byte gives the size of its sequence by the library's table \<^verbatim>\<open>first\<close> (0 here
  for an illegal first byte) and the accepted range of the second byte
  (\<^verbatim>\<open>acceptRanges\<close>); the third and fourth bytes lie between \<^verbatim>\<open>0x80\<close> and \<^verbatim>\<open>0xBF\<close>.
\<close>

definition in_range :: "char \<Rightarrow> nat \<Rightarrow> nat \<Rightarrow> bool" where
  "in_range c lo hi = (lo \<le> (of_char c :: nat) \<and> (of_char c :: nat) \<le> hi)"

definition rune_size :: "nat \<Rightarrow> nat" where
  "rune_size b =
     (if b < 0x80 then 1 else if b < 0xC2 then 0 else if b \<le> 0xDF then 2
      else if b \<le> 0xEF then 3 else if b \<le> 0xF4 then 4 else 0)"

definition second_lo :: "nat \<Rightarrow> nat" where
  "second_lo b = (if b = 0xE0 then 0xA0 else if b = 0xF0 then 0x90 else 0x80)"

definition second_hi :: "nat \<Rightarrow> nat" where
  "second_hi b = (if b = 0xED then 0x9F else if b = 0xF4 then 0x8F else 0xBF)"

function ValidString :: "string \<Rightarrow> bool" where
  "ValidString [] = True"
| "ValidString (c # cs) =
     (if (of_char c :: nat) < 0x80 then ValidString cs
      else if rune_size (of_char c) = 0 then False
      else if Suc (length cs) < rune_size (of_char c) then False
      else if \<not> in_range (cs ! 0) (second_lo (of_char c)) (second_hi (of_char c)) then False
      else if rune_size (of_char c) = 2 then ValidString (drop 1 cs)
      else if \<not> in_range (cs ! 1) 0x80 0xBF then False
      else if rune_size (of_char c) = 3 then ValidString (drop 2 cs)
      else if \<not> in_range (cs ! 2) 0x80 0xBF then False
      else ValidString (drop 3 cs))"
  by pat_completeness auto
termination
  by (relation "measure length") auto

subsection \<open>\<^verbatim>\<open>fs.ValidPath\<close>\<close>

text \<open>
  The loop of \<^verbatim>\<open>fs.ValidPath\<close>: \<open>elem\<close> is the name up to the first separator; an empty
  element, \<^verbatim>\<open>"."\<close> and \<^verbatim>\<open>".."\<close> are refused; the loop ends at the end of the name and goes on
  after the separator otherwise.
\<close>

function valid_elems :: "string \<Rightarrow> bool" where
  "valid_elems name =
     (let elem = takeWhile (\<lambda>c. c \<noteq> sep) name;
          rest = dropWhile (\<lambda>c. c \<noteq> sep) name
      in if elem = [] \<or> elem = ''.'' \<or> elem = ''..'' then False
         else if rest = [] then True
         else valid_elems (tl rest))"
  by pat_completeness auto
termination
proof (relation "measure length")
  fix name :: string and elem rest
  assume "rest = dropWhile (\<lambda>c. c \<noteq> sep) name" and "rest \<noteq> []"
  then have "length (tl rest) < length rest" and "length rest \<le> length name"
    by (simp_all add: length_dropWhile_le)
  then show "(tl rest, name) \<in> measure length"
    by simp
qed simp

declare valid_elems.simps [simp del]

definition ValidPath :: "string \<Rightarrow> bool" where
  "ValidPath name =
     (if \<not> ValidString name then False
      else if name = ''.'' then True
      else valid_elems name)"

subsection \<open>\<^verbatim>\<open>path.Clean\<close>\<close>

text \<open>
  \<^verbatim>\<open>out.w--; for out.w > dotdot && out.index(out.w) != '/' { out.w-- }\<close>: the write index
  after backtracking over the last element of the buffer.
\<close>

function backtrack :: "string \<Rightarrow> nat \<Rightarrow> nat \<Rightarrow> nat" where
  "backtrack buf dotdot w =
     (if w > dotdot \<and> buf ! w \<noteq> sep then backtrack buf dotdot (w - 1) else w)"
  by pat_completeness auto
termination
  by (relation "measure (\<lambda>(buf, dotdot, w). w)") auto

declare backtrack.simps [simp del]

text \<open>
  The main loop of \<^verbatim>\<open>path.Clean\<close>. \<open>buf\<close> is the output written so far (the first \<open>out.w\<close>
  bytes of the lazy buffer), \<open>dotdot\<close> the index where \<^verbatim>\<open>..\<close> must stop, and the last argument
  the unread rest of the path (\<^verbatim>\<open>path[r:]\<close>).
\<close>

function clean_loop :: "bool \<Rightarrow> string \<Rightarrow> nat \<Rightarrow> string \<Rightarrow> string" where
  "clean_loop rooted buf dotdot [] = buf"
| "clean_loop rooted buf dotdot (c # rest) =
     (if c = sep then clean_loop rooted buf dotdot rest
      else if c = dot \<and> (rest = [] \<or> hd rest = sep) then clean_loop rooted buf dotdot rest
      else if c = dot \<and> hd rest = dot \<and> (tl rest = [] \<or> hd (tl rest) = sep) then
        (if length buf > dotdot then
           clean_loop rooted (take (backtrack buf dotdot (length buf - 1)) buf) dotdot (tl rest)
         else if \<not> rooted then
           (let buf' = (if length buf > 0 then buf @ [sep] else buf) @ [dot, dot]
            in clean_loop rooted buf' (length buf') (tl rest))
         else clean_loop rooted buf dotdot (tl rest))
      else
        (let buf' = (if rooted \<and> length buf \<noteq> 1 \<or> \<not> rooted \<and> length buf \<noteq> 0
                     then buf @ [sep] else buf)
         in clean_loop rooted (buf' @ c # takeWhile (\<lambda>c. c \<noteq> sep) rest) dotdot
              (dropWhile (\<lambda>c. c \<noteq> sep) rest)))"
  by pat_completeness auto
termination
  by (relation "measure (\<lambda>(rooted, buf, dotdot, p). length p)")
    (auto simp: less_Suc_eq_le length_dropWhile_le)

definition Clean :: "string \<Rightarrow> string" where
  "Clean p =
     (if p = [] then ''.''
      else let rooted = (hd p = sep);
               buf = (if rooted then clean_loop True [sep] 1 (tl p)
                      else clean_loop False [] 0 p)
           in if length buf = 0 then ''.'' else buf)"

subsection \<open>\<^verbatim>\<open>path.Split\<close>, \<^verbatim>\<open>path.Base\<close>, \<^verbatim>\<open>path.Dir\<close>, \<^verbatim>\<open>path.Join\<close>, \<^verbatim>\<open>strings.TrimPrefix\<close>\<close>

text \<open>\<^verbatim>\<open>bytealg.LastIndexByteString\<close>: the index of the last occurrence, or \<open>-1\<close>.\<close>

fun LastIndexByte :: "string \<Rightarrow> char \<Rightarrow> int" where
  "LastIndexByte [] c = - 1"
| "LastIndexByte (x # xs) c =
     (let i = LastIndexByte xs c
      in if i \<ge> 0 then i + 1 else if x = c then 0 else - 1)"

definition Split :: "string \<Rightarrow> string \<times> string" where
  "Split p = (let i = LastIndexByte p sep in (take (nat (i + 1)) p, drop (nat (i + 1)) p))"

text \<open>\<^verbatim>\<open>for len(path) > 0 && path[len(path)-1] == '/' { path = path[0 : len(path)-1] }\<close>\<close>

definition strip_trailing :: "string \<Rightarrow> string" where
  "strip_trailing p = rev (dropWhile (\<lambda>c. c = sep) (rev p))"

definition Base :: "string \<Rightarrow> string" where
  "Base p =
     (if p = [] then ''.''
      else let p1 = strip_trailing p;
               i = LastIndexByte p1 sep;
               p2 = (if i \<ge> 0 then drop (nat (i + 1)) p1 else p1)
           in if p2 = [] then ''/'' else p2)"

definition Dir :: "string \<Rightarrow> string" where
  "Dir p = Clean (fst (Split p))"

text \<open>
  \<^verbatim>\<open>path.Join\<close>: the elements joined by separators, empty elements before the first
  non-empty one ignored, the result cleaned; the empty string when all elements are empty.
\<close>

fun join_buf :: "string \<Rightarrow> string list \<Rightarrow> string" where
  "join_buf buf [] = buf"
| "join_buf buf (e # es) =
     (if length buf > 0 \<or> e \<noteq> [] then
        join_buf ((if length buf > 0 then buf @ [sep] else buf) @ e) es
      else join_buf buf es)"

definition Join :: "string list \<Rightarrow> string" where
  "Join elem = (if sum_list (map length elem) = 0 then [] else Clean (join_buf [] elem))"

definition HasPrefix :: "string \<Rightarrow> string \<Rightarrow> bool" where
  "HasPrefix s pre = (length s \<ge> length pre \<and> take (length pre) s = pre)"

definition TrimPrefix :: "string \<Rightarrow> string \<Rightarrow> string" where
  "TrimPrefix s pre = (if HasPrefix s pre then drop (length pre) s else s)"

section \<open>Facts about \<^verbatim>\<open>path.Clean\<close> and \<^verbatim>\<open>path.Dir\<close>\<close>

lemma backtrack_le: "backtrack buf dd w \<le> w"
  by (induction buf dd w rule: backtrack.induct) (subst backtrack.simps, auto)

text \<open>
  The output of the loop is never longer than what was written plus what is unread, up to
  one separator that the next element may still need.
\<close>

definition slack :: "bool \<Rightarrow> string \<Rightarrow> string \<Rightarrow> nat" where
  "slack rooted buf rest =
     (if rest \<noteq> [] \<and> hd rest \<noteq> sep \<and> (rooted \<and> length buf \<noteq> 1 \<or> \<not> rooted \<and> length buf \<noteq> 0)
      then 1 else 0)"

lemma slack_after_elem [simp]: "slack rooted buf (dropWhile (\<lambda>c. c \<noteq> sep) rest) = 0"
  using hd_dropWhile [of "\<lambda>c. c \<noteq> sep" rest] by (auto simp: slack_def)

lemma length_take_drop_While: "length (takeWhile P xs) + length (dropWhile P xs) = length xs"
  by (metis length_append takeWhile_dropWhile_id)

lemma clean_loop_length:
  "length (clean_loop rooted buf dd rest) \<le> length buf + length rest + slack rooted buf rest"
proof (induction rooted buf dd rest rule: clean_loop.induct)
  case (1 rooted buf dotdot)
  then show ?case by simp
next
  case (2 rooted buf dotdot c rest)
  consider (a) "c = sep"
    | (b) "c \<noteq> sep" "c = dot \<and> (rest = [] \<or> hd rest = sep)"
    | (c) "c \<noteq> sep" "\<not> (c = dot \<and> (rest = [] \<or> hd rest = sep))"
          "c = dot \<and> hd rest = dot \<and> (tl rest = [] \<or> hd (tl rest) = sep)"
    | (d) "c \<noteq> sep" "\<not> (c = dot \<and> (rest = [] \<or> hd rest = sep))"
          "\<not> (c = dot \<and> hd rest = dot \<and> (tl rest = [] \<or> hd (tl rest) = sep))"
    by blast
  then show ?case
  proof cases
    case a
    have "slack rooted buf rest \<le> 1" by (simp add: slack_def)
    with a "2.IH"(1) show ?thesis by (simp add: slack_def) 
  next
    case b
    then have "slack rooted buf rest = 0" by (auto simp: slack_def)
    with b "2.IH"(2) show ?thesis by simp
  next
    case c
    then obtain rest' where r: "rest = dot # rest'" by (cases rest) auto
    with c have s: "slack rooted buf rest' = 0" by (auto simp: slack_def)
    show ?thesis
    proof (cases "length buf > dotdot")
      case True
      let ?b = "take (backtrack buf dotdot (length buf - 1)) buf"
      have "length ?b < length buf" using True backtrack_le [of buf dotdot "length buf - 1"] by simp
      moreover have "slack rooted ?b rest' = 0" using c r by (auto simp: slack_def)
      ultimately show ?thesis using "2.IH"(3) c r True by simp
    next
      case False
      show ?thesis
      proof (cases rooted)
        case True
        with False c r s "2.IH"(5) show ?thesis by simp 
      next
        case nr: False
        let ?b = "(if length buf > 0 then buf @ [sep] else buf) @ [dot, dot]"
        have "slack rooted ?b rest' = 0" using c r by (auto simp: slack_def)
        with "2.IH"(4) [of ?b] False nr c r show ?thesis by (auto simp: slack_def Let_def)
      qed
    qed
  next
    case d
    let ?b = "(if rooted \<and> length buf \<noteq> 1 \<or> \<not> rooted \<and> length buf \<noteq> 0 then buf @ [sep] else buf)"
    have "length (clean_loop rooted (?b @ c # takeWhile (\<lambda>c. c \<noteq> sep) rest) dotdot (dropWhile (\<lambda>c. c \<noteq> sep) rest))
       \<le> length (?b @ c # takeWhile (\<lambda>c. c \<noteq> sep) rest) + length (dropWhile (\<lambda>c. c \<noteq> sep) rest)"
      using "2.IH"(6) [OF d(1) d(2) d(3) refl] by simp
    also have "\<dots> = length ?b + 1 + length rest"
      using length_take_drop_While [of "\<lambda>c. c \<noteq> sep" rest] by simp
    also have "\<dots> \<le> length buf + length (c # rest) + slack rooted buf (c # rest)"
      using d(1) by (auto simp: slack_def)
    finally show ?thesis
      apply (subst clean_loop.simps(2))
      apply (subst if_not_P [OF d(1)])
      apply (subst if_not_P [OF d(2)])
      apply (subst if_not_P [OF d(3)])
      apply (simp only: Let_def)
      done
  qed
qed

lemma clean_loop_snoc_sep:
  "clean_loop rooted buf dd (rest @ [sep]) = clean_loop rooted buf dd rest"
proof (induction rooted buf dd rest rule: clean_loop.induct)
  case (1 rooted buf dotdot)
  then show ?case by simp
next
  case (2 rooted buf dotdot c rest)
  consider (a) "c = sep"
    | (b) "c \<noteq> sep" "c = dot \<and> (rest = [] \<or> hd rest = sep)"
    | (c) "c \<noteq> sep" "\<not> (c = dot \<and> (rest = [] \<or> hd rest = sep))"
          "c = dot \<and> hd rest = dot \<and> (tl rest = [] \<or> hd (tl rest) = sep)"
    | (d) "c \<noteq> sep" "\<not> (c = dot \<and> (rest = [] \<or> hd rest = sep))"
          "\<not> (c = dot \<and> hd rest = dot \<and> (tl rest = [] \<or> hd (tl rest) = sep))"
    by blast
  then show ?case
  proof cases
    case a
    with "2.IH"(1) show ?thesis by simp
  next
    case b
    with "2.IH"(2) show ?thesis by (cases rest) auto
  next
    case c
    then obtain rest' where r: "rest = dot # rest'" by (cases rest) auto
    have hd': "(rest' @ [sep] = [] \<or> hd (rest' @ [sep]) = sep) = True"
      using c r by (cases rest') auto
    show ?thesis
      using c r "2.IH"(3,4,5) by (cases rest') (auto simp: Let_def)
  next
    case d
    let ?b = "(if rooted \<and> length buf \<noteq> 1 \<or> \<not> rooted \<and> length buf \<noteq> 0 then buf @ [sep] else buf)"
    have e: "\<not> (c = dot \<and> ((rest @ [sep]) = [] \<or> hd (rest @ [sep]) = sep))"
      using d by (cases rest) auto
    have f: "\<not> (c = dot \<and> hd (rest @ [sep]) = dot \<and> (tl (rest @ [sep]) = [] \<or> hd (tl (rest @ [sep])) = sep))"
      using d by (cases rest; cases "tl rest") auto
    have tw: "takeWhile (\<lambda>c. c \<noteq> sep) (rest @ [sep]) = takeWhile (\<lambda>c. c \<noteq> sep) rest"
      by (induction rest) auto
    have dw: "dropWhile (\<lambda>c. c \<noteq> sep) (rest @ [sep]) = dropWhile (\<lambda>c. c \<noteq> sep) rest @ [sep]"
      by (induction rest) auto
    have "clean_loop rooted buf dotdot ((c # rest) @ [sep]) =
          clean_loop rooted (?b @ c # takeWhile (\<lambda>c. c \<noteq> sep) (rest @ [sep])) dotdot
            (dropWhile (\<lambda>c. c \<noteq> sep) (rest @ [sep]))"
      apply (simp only: append_Cons)
      apply (subst clean_loop.simps(2))
      apply (subst if_not_P [OF d(1)])
      apply (subst if_not_P [OF e])
      apply (subst if_not_P [OF f])
      apply (simp only: Let_def)
      done
    also have "\<dots> = clean_loop rooted (?b @ c # takeWhile (\<lambda>c. c \<noteq> sep) rest) dotdot
            (dropWhile (\<lambda>c. c \<noteq> sep) rest)"
      using "2.IH"(6) [OF d(1) d(2) d(3) refl] by (simp only: tw dw)
    also have "\<dots> = clean_loop rooted buf dotdot (c # rest)"
      apply (subst clean_loop.simps(2))
      apply (subst if_not_P [OF d(1)])
      apply (subst if_not_P [OF d(2)])
      apply (subst if_not_P [OF d(3)])
      apply (simp only: Let_def)
      done
    finally show ?thesis .
  qed
qed


lemma Clean_not_Nil: "Clean p \<noteq> []"
  by (simp add: Clean_def Let_def)

lemma Clean_length: "p \<noteq> [] \<Longrightarrow> length (Clean p) \<le> length p"
proof -
  assume p: "p \<noteq> []"
  then obtain c cs where pc: "p = c # cs" by (cases p) auto
  show ?thesis
  proof (cases "c = sep")
    case True
    have "length (clean_loop True [sep] 1 cs) \<le> length [sep] + length cs + slack True [sep] cs"
      by (rule clean_loop_length)
    then show ?thesis using True pc by (simp add: Clean_def Let_def slack_def)
  next
    case False
    have "length (clean_loop False [] 0 p) \<le> length ([]::string) + length p + slack False [] p"
      by (rule clean_loop_length)
    then show ?thesis using False pc by (simp add: Clean_def Let_def slack_def del: clean_loop.simps)
  qed
qed

lemma Clean_snoc_sep: "p \<noteq> [] \<Longrightarrow> Clean (p @ [sep]) = Clean p"
  by (cases p) (simp_all add: Clean_def Let_def clean_loop_snoc_sep del: clean_loop.simps
      add: clean_loop_snoc_sep [of _ _ _ "_ # _", simplified append_Cons])

lemma LastIndexByte_range:
  "LastIndexByte p c = - 1 \<or> (0 \<le> LastIndexByte p c \<and> nat (LastIndexByte p c) < length p \<and> p ! nat (LastIndexByte p c) = c)"
  by (induction p) (auto simp: Let_def nat_add_distrib)

lemma fst_Split_cases:
  "fst (Split p) = [] \<or> (\<exists>q. fst (Split p) = q @ [sep] \<and> length q < length p)"
proof -
  let ?i = "LastIndexByte p sep"
  from LastIndexByte_range [of p sep] show ?thesis
  proof
    assume "?i = - 1"
    then show ?thesis by (simp add: Split_def)
  next
    assume a: "0 \<le> ?i \<and> nat ?i < length p \<and> p ! nat ?i = sep"
    then have "nat (?i + 1) = Suc (nat ?i)" by arith
    then have "fst (Split p) = take (nat ?i) p @ [sep]"
      using a by (simp add: Split_def Let_def take_Suc_conv_app_nth)
    moreover have "length (take (nat ?i) p) < length p" using a by simp
    ultimately show ?thesis by blast
  qed
qed

definition dir_size :: "string \<Rightarrow> nat" where
  "dir_size p = (if p = ''.'' \<or> p = ''/'' then 0 else if p = [] then 1 else length p)"

lemma dir_size_le: "p \<noteq> [] \<Longrightarrow> dir_size p \<le> length p"
  by (simp add: dir_size_def)

lemma Clean_sep [simp]: "Clean ''/'' = ''/''"
  by (simp add: Clean_def)

lemma Clean_Nil [simp]: "Clean [] = ''.''"
  by (simp add: Clean_def)

lemma dir_size_Dir: "Dir p \<noteq> p \<Longrightarrow> dir_size (Dir p) < dir_size p"
proof -
  assume ne: "Dir p \<noteq> p"
  from fst_Split_cases [of p] show ?thesis
  proof
    assume "fst (Split p) = []"
    then have d: "Dir p = ''.''" by (simp add: Dir_def)
    with ne have "p \<noteq> ''.''" by auto
    moreover have "p \<noteq> ''/''"
    proof
      assume "p = ''/''"
      then have "Dir p = ''/''" by (simp add: Dir_def Split_def)
      with ne \<open>p = ''/''\<close> show False by simp
    qed
    ultimately have "0 < dir_size p" by (simp add: dir_size_def)
    with d show ?thesis by (simp add: dir_size_def)
  next
    assume "\<exists>q. fst (Split p) = q @ [sep] \<and> length q < length p"
    then obtain q where q: "fst (Split p) = q @ [sep]" "length q < length p" by blast
    show ?thesis
    proof (cases "q = []")
      case True
      with q have d: "Dir p = ''/''" by (simp add: Dir_def)
      with ne have "p \<noteq> ''/''" by auto
      moreover have "p \<noteq> ''.''" using q True by (auto simp: Split_def)
      moreover have "p \<noteq> []" using q by auto
      ultimately have "0 < dir_size p" by (simp add: dir_size_def)
      with d show ?thesis by (simp add: dir_size_def)
    next
      case False
      then have "Dir p = Clean q" using q by (simp add: Dir_def Clean_snoc_sep)
      moreover have "dir_size (Clean q) \<le> length (Clean q)" by (rule dir_size_le [OF Clean_not_Nil])
      moreover have "length (Clean q) \<le> length q" by (rule Clean_length [OF False])
      moreover have "length p \<ge> 2" using q False by (cases q) auto
      then have "dir_size p = length p" by (auto simp: dir_size_def)
      ultimately show ?thesis using q by simp
    qed
  qed
qed

section \<open>The archive filesystem of \<^verbatim>\<open>zipfs/zipfs.go\<close>\<close>

subsection \<open>Data\<close>

text \<open>
  \<^verbatim>\<open>fs.FileMode\<close> is a \<^verbatim>\<open>uint32\<close>; \<^verbatim>\<open>fs.ModeDir\<close> is its highest bit. \<^verbatim>\<open>time.Time\<close> is an
  integer instant, with 0 for the zero value.
\<close>

type_synonym FileMode = "32 word"

definition ModeDir :: FileMode where
  "ModeDir = push_bit 31 1"

text \<open>
  One record of the archive (\<^verbatim>\<open>*zip.File\<close>): the header's name and declared uncompressed
  size, and what \<^verbatim>\<open>f.FileInfo()\<close> reports as mode and modification time.
\<close>

record zipfile =
  Name :: string
  UncompressedSize64 :: "64 word"
  Mode :: FileMode
  ModTime :: int

text \<open>
  \<^verbatim>\<open>fs.DirEntry\<close> values of the index: a \<^verbatim>\<open>fileEntry{file}\<close>, or a pointer to a \<^verbatim>\<open>dirInfo\<close>.
  Pointers to \<^verbatim>\<open>dirInfo\<close> objects are addresses into the object list \<open>objs\<close> of the
  filesystem; a new object is allocated at the end of the list.
\<close>

datatype DirEntry = fileEntry zipfile | dirEntry nat

record dirInfo =
  di_name :: string
  di_modTime :: int
  di_entries :: "DirEntry list"

record ZipFS =
  reader :: "zipfile list"
  files :: "string \<rightharpoonup> zipfile"
  dirs :: "string \<rightharpoonup> nat"
  objs :: "dirInfo list"

text \<open>
  Errors: an \<^verbatim>\<open>*fs.PathError{Op, Path, Err}\<close> with \<^verbatim>\<open>fs.ErrInvalid\<close> or \<^verbatim>\<open>fs.ErrNotExist\<close>,
  the plain \<^verbatim>\<open>io.EOF\<close>, and a run-time panic of the Go program (an index or slice bound out
  of range, a nil pointer).
\<close>

datatype errno = ErrInvalid | ErrNotExist

datatype error = PathError string string errno | EOF | Panic

subsection \<open>\<^verbatim>\<open>NewZipFS\<close> and \<^verbatim>\<open>buildIndex\<close>\<close>

text \<open>
  The inner loop of \<^verbatim>\<open>buildIndex\<close>, which walks from \<open>dir\<close> up to the root: an existing
  directory gets the entry appended and the walk stops; a missing one is created with the
  entry as its only child, stored in \<open>dirs\<close>, and becomes the entry for its own parent.
  Each step of the walk stores \<open>dir\<close> before it goes on with \<open>path.Dir dir\<close>, and
  \<open>path.Dir\<close> shortens every path but its two fixed points, so the loop ends.
\<close>

definition walk_size :: "ZipFS \<Rightarrow> string \<Rightarrow> nat" where
  "walk_size z dir = (case dirs z dir of Some parent \<Rightarrow> 0 | None \<Rightarrow> Suc (dir_size dir))"

function walk :: "int \<Rightarrow> ZipFS \<Rightarrow> DirEntry \<Rightarrow> string \<Rightarrow> ZipFS" where
  "walk dirModTime z entry dir =
     (case dirs z dir of
        Some parent \<Rightarrow>
          z\<lparr>objs := (objs z)[parent := (objs z ! parent)
                \<lparr>di_entries := di_entries (objs z ! parent) @ [entry]\<rparr>]\<rparr>
      | None \<Rightarrow>
          (let parent = length (objs z);
               z' = z\<lparr>objs := objs z @ [\<lparr>di_name = Base dir, di_modTime = dirModTime,
                                          di_entries = [entry]\<rparr>],
                      dirs := (dirs z)(dir \<mapsto> parent)\<rparr>
           in walk dirModTime z' (dirEntry parent) (Dir dir)))"
  by pat_completeness auto
termination
proof (relation "measure (\<lambda>(dirModTime, z, entry, dir). walk_size z dir)")
  fix dirModTime :: int and z :: ZipFS and entry :: DirEntry and dir :: string
    and parent :: nat and z' :: ZipFS
  assume none: "dirs z dir = None"
    and z': "z' = z\<lparr>objs := objs z @ [\<lparr>di_name = Base dir, di_modTime = dirModTime,
                                          di_entries = [entry]\<rparr>],
                      dirs := (dirs z)(dir \<mapsto> parent)\<rparr>"
  have "walk_size z' (Dir dir) < walk_size z dir"
  proof (cases "Dir dir = dir")
    case True
    then show ?thesis using none z' by (simp add: walk_size_def)
  next
    case False
    then have "dir_size (Dir dir) < dir_size dir" by (rule dir_size_Dir)
    then show ?thesis using none z' by (simp add: walk_size_def split: option.split)
  qed
  then show "((dirModTime, z', dirEntry parent, Dir dir), (dirModTime, z, entry, dir))
      \<in> measure (\<lambda>(dirModTime, z, entry, dir). walk_size z dir)"
    by simp
qed simp

declare walk.simps [simp del]

text \<open>\<^verbatim>\<open>isDir := len(f.Name) == 0 || f.Name[len(f.Name)-1] == '/'\<close>\<close>

definition isDir :: "zipfile \<Rightarrow> bool" where
  "isDir f = (length (Name f) = 0 \<or> last (Name f) = sep)"

text \<open>
  The body of the loop over the records. \<^verbatim>\<open>name[0]\<close> panics on an empty string, which is
  a branch here. A directory record allocates its \<^verbatim>\<open>dirInfo\<close> (no children yet) and stores
  it under the cleaned name; a file record stores the record under the cleaned name.
\<close>

definition index_record :: "int \<Rightarrow> ZipFS \<Rightarrow> zipfile \<Rightarrow> error + ZipFS" where
  "index_record dirModTime z f =
     (let name = Clean (Name f)
      in if name = ''.'' then Inr z
         else case name of
           [] \<Rightarrow> Inl Panic
         | c # cs \<Rightarrow>
             if c = sep then Inr z
             else if isDir f then
               (if UncompressedSize64 f \<noteq> 0 then Inr z
                else
                  (let dir = length (objs z);
                       z' = z\<lparr>objs := objs z @ [\<lparr>di_name = Base name, di_modTime = ModTime f,
                                                  di_entries = []\<rparr>],
                              dirs := (dirs z)(name \<mapsto> dir)\<rparr>
                   in Inr (walk dirModTime z' (dirEntry dir) (Dir name))))
             else Inr (walk dirModTime (z\<lparr>files := (files z)(name \<mapsto> f)\<rparr>) (fileEntry f)
                        (Dir name)))"

fun index_records :: "int \<Rightarrow> ZipFS \<Rightarrow> zipfile list \<Rightarrow> error + ZipFS" where
  "index_records dirModTime z [] = Inr z"
| "index_records dirModTime z (f # fs) =
     (case index_record dirModTime z f of
        Inl e \<Rightarrow> Inl e
      | Inr z' \<Rightarrow> index_records dirModTime z' fs)"

text \<open>
  \<^verbatim>\<open>buildIndex\<close>; \<open>dirModTime\<close> is the value of \<^verbatim>\<open>time.Now()\<close>. The assignment
  \<^verbatim>\<open>z.dirs["."].modTime = dirModTime\<close> dereferences the root entry, a nil pointer when the
  map has none.
\<close>

definition buildIndex :: "int \<Rightarrow> ZipFS \<Rightarrow> error + ZipFS" where
  "buildIndex dirModTime z =
     (case dirs z ''.'' of
        None \<Rightarrow> Inl Panic
      | Some root \<Rightarrow>
          index_records dirModTime
            (z\<lparr>objs := (objs z)[root := (objs z ! root)\<lparr>di_modTime := dirModTime\<rparr>]\<rparr>)
            (reader z))"

definition NewZipFS :: "int \<Rightarrow> zipfile list \<Rightarrow> error + ZipFS" where
  "NewZipFS now r =
     buildIndex now
       \<lparr>reader = r, files = Map.empty, dirs = [''.'' \<mapsto> 0],
        objs = [\<lparr>di_name = ''.'', di_modTime = 0, di_entries = []\<rparr>]\<rparr>"

subsection \<open>Readers and file information\<close>

text \<open>
  A \<^verbatim>\<open>dirReader\<close> holds the pointer to its \<^verbatim>\<open>dirInfo\<close>, the path it was opened under and
  the cursor \<open>pos\<close> (a Go \<^verbatim>\<open>int\<close> that only takes values between 0 and the number of
  children, a \<open>nat\<close> here). A \<^verbatim>\<open>fileReader\<close> holds its record and the decompression stream
  \<^verbatim>\<open>rc\<close>: \<open>None\<close> for nil, and the bytes not yet read for an open stream. \<open>File\<close> is the
  interface value \<^verbatim>\<open>fs.File\<close> that \<^verbatim>\<open>Open\<close> returns.
\<close>

record dirReader =
  dr_info :: nat
  dr_path :: string
  dr_pos :: nat

record fileReader =
  fr_file :: zipfile
  fr_rc :: "string option"

datatype File = DirReader dirReader | FileReader fileReader

text \<open>
  \<^verbatim>\<open>fs.FileInfo\<close> values: a \<^verbatim>\<open>roFileInfo\<close> around the record's own information, or a pointer
  to a \<^verbatim>\<open>dirInfo\<close>. The permission masks are octal 0222 (146) and octal 0555 (365).
\<close>

datatype FileInfo = roFileInfo zipfile | dirInfoPtr nat

definition roFileInfo_Mode :: "zipfile \<Rightarrow> FileMode" where
  "roFileInfo_Mode f = Mode f AND NOT 146"

definition dirInfo_Mode :: FileMode where
  "dirInfo_Mode = ModeDir OR 365"

definition FileInfo_Mode :: "FileInfo \<Rightarrow> FileMode" where
  "FileInfo_Mode fi = (case fi of roFileInfo f \<Rightarrow> roFileInfo_Mode f | dirInfoPtr a \<Rightarrow> dirInfo_Mode)"

definition fileReader_Stat :: "fileReader \<Rightarrow> error + FileInfo" where
  "fileReader_Stat f = Inr (roFileInfo (fr_file f))"

definition dirReader_Stat :: "dirReader \<Rightarrow> error + FileInfo" where
  "dirReader_Stat d = Inr (dirInfoPtr (dr_info d))"

definition File_Stat :: "File \<Rightarrow> error + FileInfo" where
  "File_Stat f = (case f of DirReader d \<Rightarrow> dirReader_Stat d | FileReader r \<Rightarrow> fileReader_Stat r)"

text \<open>The methods of the two kinds of \<^verbatim>\<open>fs.DirEntry\<close>.\<close>

definition DirEntry_Name :: "ZipFS \<Rightarrow> DirEntry \<Rightarrow> string" where
  "DirEntry_Name z e =
     (case e of fileEntry f \<Rightarrow> Base (Name f) | dirEntry a \<Rightarrow> di_name (objs z ! a))"

definition DirEntry_IsDir :: "DirEntry \<Rightarrow> bool" where
  "DirEntry_IsDir e = (case e of fileEntry f \<Rightarrow> False | dirEntry a \<Rightarrow> True)"

definition DirEntry_Info :: "DirEntry \<Rightarrow> error + FileInfo" where
  "DirEntry_Info e =
     (case e of fileEntry f \<Rightarrow> Inr (roFileInfo f) | dirEntry a \<Rightarrow> Inr (dirInfoPtr a))"

subsection \<open>Slices of directory entries\<close>

text \<open>
  A \<^verbatim>\<open>[]fs.DirEntry\<close> handed to a caller is either a slice with a backing array of its own
  (\<open>Copy\<close>, as \<^verbatim>\<open>append([]fs.DirEntry(nil), dir.entries...)\<close> makes one), or a window
  \<^verbatim>\<open>d.info.entries[lo:hi]\<close> into the child array of the \<^verbatim>\<open>dirInfo\<close> at an address, which it
  shares with the index. \<open>slice_store\<close> is the caller's assignment \<^verbatim>\<open>s[i] = v\<close>.
\<close>

datatype slice = Copy "DirEntry list" | Window nat nat nat

definition slice_entries :: "ZipFS \<Rightarrow> slice \<Rightarrow> DirEntry list" where
  "slice_entries z s =
     (case s of
        Copy xs \<Rightarrow> xs
      | Window a lo hi \<Rightarrow> take (hi - lo) (drop lo (di_entries (objs z ! a))))"

definition slice_store :: "ZipFS \<Rightarrow> slice \<Rightarrow> nat \<Rightarrow> DirEntry \<Rightarrow> error + ZipFS \<times> slice" where
  "slice_store z s i v =
     (case s of
        Copy xs \<Rightarrow> if i < length xs then Inr (z, Copy (xs[i := v])) else Inl Panic
      | Window a lo hi \<Rightarrow>
          if i < hi - lo then
            Inr (z\<lparr>objs := (objs z)[a := (objs z ! a)
                   \<lparr>di_entries := (di_entries (objs z ! a))[lo + i := v]\<rparr>]\<rparr>, Window a lo hi)
          else Inl Panic)"

subsection \<open>The root view: \<^verbatim>\<open>ZipFS.Open\<close> and \<^verbatim>\<open>ZipFS.ReadDir\<close>\<close>

definition ZipFS_Open :: "ZipFS \<Rightarrow> string \<Rightarrow> error + File" where
  "ZipFS_Open z name =
     (if \<not> ValidPath name then Inl (PathError ''open'' name ErrInvalid)
      else
        (let name' = Clean name
         in case dirs z name' of
              Some dir \<Rightarrow> Inr (DirReader \<lparr>dr_info = dir, dr_path = name', dr_pos = 0\<rparr>)
            | None \<Rightarrow>
                (case files z name' of
                   Some file \<Rightarrow> Inr (FileReader \<lparr>fr_file = file, fr_rc = None\<rparr>)
                 | None \<Rightarrow> Inl (PathError ''open'' name' ErrNotExist))))"

text \<open>
  \<^verbatim>\<open>slices.SortFunc\<close> with \<^verbatim>\<open>strings.Compare\<close> on the names: the entries in ascending
  byte-wise order of their names. The library does not promise an order among entries of
  equal name; insertion sort by the name stands for it here.
\<close>

definition SortFunc :: "ZipFS \<Rightarrow> DirEntry list \<Rightarrow> DirEntry list" where
  "SortFunc z entries = sort_key (DirEntry_Name z) entries"

definition ZipFS_ReadDir :: "ZipFS \<Rightarrow> string \<Rightarrow> error + slice" where
  "ZipFS_ReadDir z name =
     (if \<not> ValidPath name then Inl (PathError ''readdir'' name ErrInvalid)
      else
        (let cleanName = Clean name
         in case dirs z cleanName of
              None \<Rightarrow> Inl (PathError ''readdir'' name ErrNotExist)
            | Some dir \<Rightarrow> Inr (Copy (SortFunc z (di_entries (objs z ! dir))))))"

subsection \<open>The directory reader\<close>

definition dirReader_rebase :: "dirReader \<Rightarrow> string \<Rightarrow> dirReader" where
  "dirReader_rebase d pre = d\<lparr>dr_path := TrimPrefix (dr_path d) (pre @ [sep])\<rparr>"

definition dirReader_Read :: "dirReader \<Rightarrow> error + nat" where
  "dirReader_Read d = Inl (PathError ''read'' (dr_path d) ErrInvalid)"

text \<open>\<^verbatim>\<open>Close\<close> returns the reader with its cursor at 0 and the error, \<open>None\<close> for nil.\<close>

definition dirReader_Close :: "dirReader \<Rightarrow> dirReader \<times> error option" where
  "dirReader_Close d = (d\<lparr>dr_pos := 0\<rparr>, None)"

subsection \<open>The file reader\<close>

text \<open>
  \<^verbatim>\<open>f.file.Open()\<close> of the archive library is a parameter, \<open>open_stream\<close>: it gives the
  uncompressed bytes of the record, or an error. A stream hands out, for a buffer of length
  \<open>k\<close>, its next \<open>k\<close> bytes, and \<^verbatim>\<open>io.EOF\<close> when none are left. What the stream's own \<^verbatim>\<open>Close\<close>
  returns is the parameter \<open>close_stream\<close>.
\<close>

definition stream_Read :: "string \<Rightarrow> nat \<Rightarrow> string \<times> (error + string)" where
  "stream_Read rest k = (if rest = [] then ([], Inl EOF) else (drop k rest, Inr (take k rest)))"

text \<open>
  \<^verbatim>\<open>Read\<close> opens the stream when \<^verbatim>\<open>f.rc\<close> is nil, and returns the error of a failed open with
  \<^verbatim>\<open>f.rc\<close> still nil; then it reads from the stream. The result is the reader and the bytes
  read, or the error.
\<close>

definition fileReader_Read ::
  "(zipfile \<Rightarrow> error + string) \<Rightarrow> fileReader \<Rightarrow> nat \<Rightarrow> fileReader \<times> (error + string)" where
  "fileReader_Read open_stream f k =
     (case fr_rc f of
        None \<Rightarrow>
          (case open_stream (fr_file f) of
             Inl err \<Rightarrow> (f, Inl err)
           | Inr bytes \<Rightarrow>
               (f\<lparr>fr_rc := Some (fst (stream_Read bytes k))\<rparr>, snd (stream_Read bytes k)))
      | Some rest \<Rightarrow> (f\<lparr>fr_rc := Some (fst (stream_Read rest k))\<rparr>, snd (stream_Read rest k)))"

text \<open>
  \<^verbatim>\<open>Close\<close> closes an open stream, sets \<^verbatim>\<open>f.rc\<close> to nil and returns the stream's error; with
  no stream open it returns nil.
\<close>

definition fileReader_Close ::
  "(string \<Rightarrow> error option) \<Rightarrow> fileReader \<Rightarrow> fileReader \<times> error option" where
  "fileReader_Close close_stream f =
     (case fr_rc f of
        Some rest \<Rightarrow> (f\<lparr>fr_rc := None\<rparr>, close_stream rest)
      | None \<Rightarrow> (f, None))"

subsection \<open>\<^verbatim>\<open>dirReader.ReadDir\<close>\<close>

text \<open>
  \<^verbatim>\<open>ReadDir(n)\<close>, with \<open>n\<close> a 64-bit Go \<^verbatim>\<open>int\<close>. The sum \<^verbatim>\<open>d.pos + n\<close> wraps around; a slice
  expression \<^verbatim>\<open>entries[lo:hi]\<close> panics unless \<open>lo \<le> hi\<close> and \<open>hi\<close> is within the array. The
  reader is returned with its new cursor; a panic leaves it as it was.
\<close>

definition dirReader_ReadDir :: "ZipFS \<Rightarrow> dirReader \<Rightarrow> 64 word \<Rightarrow> dirReader \<times> (error + slice)" where
  "dirReader_ReadDir z d n =
     (let len = length (di_entries (objs z ! dr_info d))
      in if sint n \<le> 0 then
           (if dr_pos d > len then (d, Inl Panic)
            else (d\<lparr>dr_pos := len\<rparr>, Inr (Window (dr_info d) (dr_pos d) len)))
         else if dr_pos d \<ge> len then (d, Inl EOF)
         else
           (let end0 = sint ((word_of_nat (dr_pos d) :: 64 word) + n);
                end1 = (if end0 > int len then int len else end0)
            in if end1 < int (dr_pos d) then (d, Inl Panic)
               else if nat end1 - dr_pos d = 0 then (d\<lparr>dr_pos := nat end1\<rparr>, Inl EOF)
               else (d\<lparr>dr_pos := nat end1\<rparr>, Inr (Window (dr_info d) (dr_pos d) (nat end1)))))"

subsection \<open>Views: \<^verbatim>\<open>ZipFS.Sub\<close> and \<^verbatim>\<open>subFS\<close>\<close>

text \<open>
  \<^verbatim>\<open>Sub\<close> returns an \<^verbatim>\<open>fs.FS\<close>: the pointer to the filesystem itself, or a pointer to a newly
  allocated \<^verbatim>\<open>subFS{parent, prefix}\<close>. The objects live in a store, so that two views with
  the same fields are still two objects; a pointer is an address into the store, and a
  pointer outside the store stands for nil.
\<close>

record subFS =
  sub_parent :: nat
  sub_prefix :: string

record store =
  zipfs_objs :: "ZipFS list"
  subfs_objs :: "subFS list"

datatype FS = ZipFSPtr nat | subFSPtr nat

definition ZipFS_Sub :: "store \<Rightarrow> nat \<Rightarrow> string \<Rightarrow> store \<times> (error + FS)" where
  "ZipFS_Sub st zp dir =
     (if \<not> ValidPath dir then (st, Inl (PathError ''sub'' dir ErrInvalid))
      else
        (let dir' = Clean dir
         in if dir' = ''.'' then (st, Inr (ZipFSPtr zp))
            else if zp \<ge> length (zipfs_objs st) then (st, Inl Panic)
            else if dirs (zipfs_objs st ! zp) dir' = None
              then (st, Inl (PathError ''sub'' dir' ErrNotExist))
            else (st\<lparr>subfs_objs := subfs_objs st @ [\<lparr>sub_parent = zp, sub_prefix = dir'\<rparr>]\<rparr>,
                  Inr (subFSPtr (length (subfs_objs st))))))"

text \<open>\<^verbatim>\<open>rebaseError\<close> and \<^verbatim>\<open>rebaseAny\<close>: only a \<^verbatim>\<open>*fs.PathError\<close> and a \<^verbatim>\<open>*dirReader\<close> change.\<close>

definition rebaseError :: "subFS \<Rightarrow> error \<Rightarrow> error" where
  "rebaseError s err =
     (case err of
        PathError op p e \<Rightarrow> PathError op (TrimPrefix p (sub_prefix s @ [sep])) e
      | EOF \<Rightarrow> EOF
      | Panic \<Rightarrow> Panic)"

definition rebaseAny :: "subFS \<Rightarrow> File \<Rightarrow> File" where
  "rebaseAny s f =
     (case f of
        DirReader d \<Rightarrow> DirReader (dirReader_rebase d (sub_prefix s))
      | FileReader r \<Rightarrow> FileReader r)"

definition subFS_Open :: "store \<Rightarrow> nat \<Rightarrow> string \<Rightarrow> error + File" where
  "subFS_Open st sp name =
     (if \<not> ValidPath name then Inl (PathError ''open'' name ErrInvalid)
      else if sp \<ge> length (subfs_objs st) then Inl Panic
      else
        (let s = subfs_objs st ! sp
         in if sub_parent s \<ge> length (zipfs_objs st) then Inl Panic
            else
              (case ZipFS_Open (zipfs_objs st ! sub_parent s) (Join [sub_prefix s, name]) of
                 Inr f \<Rightarrow> Inr (rebaseAny s f)
               | Inl err \<Rightarrow> Inl (rebaseError s err))))"

definition subFS_ReadDir :: "store \<Rightarrow> nat \<Rightarrow> string \<Rightarrow> error + slice" where
  "subFS_ReadDir st sp name =
     (if \<not> ValidPath name then Inl (PathError ''readdir'' name ErrInvalid)
      else if sp \<ge> length (subfs_objs st) then Inl Panic
      else
        (let s = subfs_objs st ! sp
         in if sub_parent s \<ge> length (zipfs_objs st) then Inl Panic
            else
              (case ZipFS_ReadDir (zipfs_objs st ! sub_parent s) (Join [sub_prefix s, name]) of
                 Inr entries \<Rightarrow> Inr entries
               | Inl err \<Rightarrow> Inl (rebaseError s err))))"

definition subFS_Sub :: "store \<Rightarrow> nat \<Rightarrow> string \<Rightarrow> store \<times> (error + FS)" where
  "subFS_Sub st sp dir =
     (if \<not> ValidPath dir then (st, Inl (PathError ''sub'' dir ErrInvalid))
      else if sp \<ge> length (subfs_objs st) then (st, Inl Panic)
      else
        (let s = subfs_objs st ! sp
         in case ZipFS_Sub st (sub_parent s) (Join [sub_prefix s, dir]) of
              (st', Inr ss) \<Rightarrow> (st', Inr ss)
            | (st', Inl err) \<Rightarrow> (st', Inl (rebaseError s err))))"

text \<open>The methods of the interface value, by the kind of view.\<close>

definition FS_Open :: "store \<Rightarrow> FS \<Rightarrow> string \<Rightarrow> error + File" where
  "FS_Open st v name =
     (case v of
        ZipFSPtr zp \<Rightarrow>
          if \<not> ValidPath name then Inl (PathError ''open'' name ErrInvalid)
          else if zp \<ge> length (zipfs_objs st) then Inl Panic
          else ZipFS_Open (zipfs_objs st ! zp) name
      | subFSPtr sp \<Rightarrow> subFS_Open st sp name)"

definition FS_Sub :: "store \<Rightarrow> FS \<Rightarrow> string \<Rightarrow> store \<times> (error + FS)" where
  "FS_Sub st v dir =
     (case v of ZipFSPtr zp \<Rightarrow> ZipFS_Sub st zp dir | subFSPtr sp \<Rightarrow> subFS_Sub st sp dir)"

section \<open>Read-only modes\<close>

lemma mask_clear: "(x AND NOT 146) AND (146 :: FileMode) = 0"
  by (simp add: and.assoc)

lemma dir_mode_ro: "dirInfo_Mode AND 146 = 0"
  by (simp add: dirInfo_Mode_def ModeDir_def)

text \<open>
  Claim C9. Every \<^verbatim>\<open>FileInfo\<close> returned for a file, by a file reader's \<^verbatim>\<open>Stat\<close> or by a
  directory entry's \<^verbatim>\<open>Info\<close>, reports the record's mode with the write permission bits
  (octal 0222) cleared; every directory, by a directory reader's \<^verbatim>\<open>Stat\<close> or a directory
  entry's \<^verbatim>\<open>Info\<close>, reports the fixed mode \<^verbatim>\<open>ModeDir | 0555\<close>; so no object of the
  filesystem has a write bit set, whatever mode the archive stores.
\<close>

theorem no_object_appears_writable:
  "(\<exists>fi. fileReader_Stat r = Inr fi \<and> FileInfo_Mode fi = Mode (fr_file r) AND NOT 146
        \<and> FileInfo_Mode fi AND 146 = 0)
   \<and> (\<exists>fi. DirEntry_Info (fileEntry f) = Inr fi \<and> FileInfo_Mode fi = Mode f AND NOT 146
        \<and> FileInfo_Mode fi AND 146 = 0)
   \<and> (\<exists>fi. dirReader_Stat d = Inr fi \<and> FileInfo_Mode fi = ModeDir OR 365
        \<and> FileInfo_Mode fi AND 146 = 0)
   \<and> (\<exists>fi. DirEntry_Info (dirEntry a) = Inr fi \<and> FileInfo_Mode fi = ModeDir OR 365
        \<and> FileInfo_Mode fi AND 146 = 0)
   \<and> (\<exists>fi. File_Stat h = Inr fi \<and> FileInfo_Mode fi AND 146 = 0)
   \<and> (\<exists>fi. DirEntry_Info e = Inr fi \<and> FileInfo_Mode fi AND 146 = 0)"
proof -
  have ro: "FileInfo_Mode (roFileInfo g) AND 146 = 0" for g
    unfolding FileInfo_Mode_def roFileInfo_Mode_def FileInfo.case by (rule mask_clear)
  have di: "FileInfo_Mode (dirInfoPtr b) AND 146 = 0" for b
    using dir_mode_ro by (simp add: FileInfo_Mode_def)
  have di2: "FileInfo_Mode (dirInfoPtr b) = ModeDir OR 365" for b
    unfolding FileInfo_Mode_def dirInfo_Mode_def FileInfo.case by (rule refl)
  have ro2: "FileInfo_Mode (roFileInfo g) = Mode g AND NOT 146" for g
    unfolding FileInfo_Mode_def roFileInfo_Mode_def FileInfo.case by (rule refl)
  have 1: "\<exists>fi. fileReader_Stat r = Inr fi \<and> FileInfo_Mode fi = Mode (fr_file r) AND NOT 146
        \<and> FileInfo_Mode fi AND 146 = 0"
    using ro ro2 by (simp add: fileReader_Stat_def)
  have 2: "\<exists>fi. DirEntry_Info (fileEntry f) = Inr fi \<and> FileInfo_Mode fi = Mode f AND NOT 146
        \<and> FileInfo_Mode fi AND 146 = 0"
    using ro ro2 by (simp add: DirEntry_Info_def)
  have 3: "\<exists>fi. dirReader_Stat d = Inr fi \<and> FileInfo_Mode fi = ModeDir OR 365
        \<and> FileInfo_Mode fi AND 146 = 0"
    using di di2 by (simp add: dirReader_Stat_def)
  have 4: "\<exists>fi. DirEntry_Info (dirEntry a) = Inr fi \<and> FileInfo_Mode fi = ModeDir OR 365
        \<and> FileInfo_Mode fi AND 146 = 0"
    using di di2 by (simp add: DirEntry_Info_def)
  have 5: "\<exists>fi. File_Stat h = Inr fi \<and> FileInfo_Mode fi AND 146 = 0"
    using ro di by (cases h) (simp_all add: File_Stat_def fileReader_Stat_def dirReader_Stat_def)
  have 6: "\<exists>fi. DirEntry_Info e = Inr fi \<and> FileInfo_Mode fi AND 146 = 0"
    using ro di by (cases e) (simp_all add: DirEntry_Info_def)
  from 1 2 3 4 5 6 show ?thesis by blast
qed

section \<open>The directory reader\<close>

subsection \<open>The three cases of \<^verbatim>\<open>ReadDir\<close>\<close>

lemma sint_of_pos: "p < 2 ^ 63 \<Longrightarrow> sint (word_of_nat p :: 64 word) = int p"
  by (simp add: signed_of_nat signed_take_bit_int_eq_self) 

lemma sint_pos_plus:
  assumes "int p + sint (n :: 64 word) < 2 ^ 63" and "0 < sint n"
  shows "sint (word_of_nat p + n) = int p + sint n"
proof -
  have p: "p < 2 ^ 63" using assms by (simp add: nat_less_iff) 
  have "sint (word_of_nat p + n) = signed_take_bit 63 (int p + sint n)"
    by (simp add: sint_word_ariths sint_of_pos [OF p])
  also have "\<dots> = int p + sint n"
    using assms by (intro signed_take_bit_int_eq_self) simp_all
  finally show ?thesis .
qed

lemma ReadDir_all:
  "sint n \<le> 0 \<Longrightarrow> dr_pos d \<le> length (di_entries (objs z ! dr_info d)) \<Longrightarrow>
   dirReader_ReadDir z d n =
     (d\<lparr>dr_pos := length (di_entries (objs z ! dr_info d))\<rparr>,
      Inr (Window (dr_info d) (dr_pos d) (length (di_entries (objs z ! dr_info d)))))"
  by (simp add: dirReader_ReadDir_def Let_def)

lemma ReadDir_at_end:
  "0 < sint n \<Longrightarrow> length (di_entries (objs z ! dr_info d)) \<le> dr_pos d \<Longrightarrow>
   dirReader_ReadDir z d n = (d, Inl EOF)"
  by (simp add: dirReader_ReadDir_def)

lemma ReadDir_some:
  assumes "0 < sint n" and "dr_pos d < length (di_entries (objs z ! dr_info d))"
    and "int (dr_pos d) + sint n < 2 ^ 63"
  shows "dirReader_ReadDir z d n =
     (d\<lparr>dr_pos := min (dr_pos d + nat (sint n)) (length (di_entries (objs z ! dr_info d)))\<rparr>,
      Inr (Window (dr_info d) (dr_pos d)
            (min (dr_pos d + nat (sint n)) (length (di_entries (objs z ! dr_info d))))))"
proof -
  let ?len = "length (di_entries (objs z ! dr_info d))"
  have e: "sint (word_of_nat (dr_pos d) + n) = int (dr_pos d) + sint n"
    using assms(3,1) by (rule sint_pos_plus)
  have m: "nat (if int ?len < int (dr_pos d) + sint n then int ?len else int (dr_pos d) + sint n)
      = min (dr_pos d + nat (sint n)) ?len"
    using assms(1) by (auto simp: min_def nat_add_distrib)
  show ?thesis
    using assms(1,2) unfolding dirReader_ReadDir_def Let_def e m
    by (auto simp: min_def)
qed

text \<open>
  \<open>k\<close> successive calls \<^verbatim>\<open>ReadDir(n)\<close> on a reader, the entries of the returned slices one
  after the other; an error ends the sequence.
\<close>

fun successive_ReadDir :: "ZipFS \<Rightarrow> dirReader \<Rightarrow> 64 word \<Rightarrow> nat \<Rightarrow> DirEntry list" where
  "successive_ReadDir z d n 0 = []"
| "successive_ReadDir z d n (Suc k) =
     (case dirReader_ReadDir z d n of
        (d', Inr s) \<Rightarrow> slice_entries z s @ successive_ReadDir z d' n k
      | (d', Inl e) \<Rightarrow> [])"

lemma successive_ReadDir_take:
  assumes "0 < sint n" and "int (length (di_entries (objs z ! a))) + sint n < 2 ^ 63"
  shows "dr_info d = a \<Longrightarrow> dr_pos d \<le> length (di_entries (objs z ! a)) \<Longrightarrow>
    successive_ReadDir z d n k = take (k * nat (sint n)) (drop (dr_pos d) (di_entries (objs z ! a)))"
proof (induction k arbitrary: d)
  case 0
  then show ?case by simp
next
  case (Suc k)
  let ?es = "di_entries (objs z ! a)"
  let ?m = "nat (sint n)"
  have m: "0 < ?m" using assms(1) by simp
  show ?case
  proof (cases "dr_pos d < length ?es")
    case False
    with Suc.prems have "dirReader_ReadDir z d n = (d, Inl EOF)"
      using assms(1) by (simp add: ReadDir_at_end)
    with False show ?thesis by simp
  next
    case True
    let ?p = "min (dr_pos d + ?m) (length ?es)"
    let ?d = "d\<lparr>dr_pos := ?p\<rparr>"
    have "int (dr_pos d) + sint n < 2 ^ 63" using True assms(2) by simp
    then have r: "dirReader_ReadDir z d n = (?d, Inr (Window a (dr_pos d) ?p))"
      using ReadDir_some [OF assms(1), of d z] True Suc.prems(1) by simp
    have ih: "successive_ReadDir z ?d n k = take (k * ?m) (drop ?p ?es)"
      using Suc.IH [of ?d] Suc.prems(1) by simp
    have "successive_ReadDir z d n (Suc k) =
        take (?p - dr_pos d) (drop (dr_pos d) ?es) @ take (k * ?m) (drop ?p ?es)"
      by (simp add: r ih slice_entries_def)
    also have "\<dots> = take (Suc k * ?m) (drop (dr_pos d) ?es)"
    proof (cases "dr_pos d + ?m \<le> length ?es")
      case le: True
      then have p: "?p = dr_pos d + ?m" by simp
      have "take (?m + k * ?m) (drop (dr_pos d) ?es)
          = take ?m (drop (dr_pos d) ?es) @ take (k * ?m) (drop ?m (drop (dr_pos d) ?es))"
        by (rule take_add)
      then show ?thesis unfolding p by (simp add: add.commute)
    next
      case gt: False
      then have p: "?p = length ?es" by simp
      have "length (drop (dr_pos d) ?es) \<le> Suc k * ?m" using gt by simp
      then show ?thesis unfolding p by simp
    qed
    finally show ?thesis .
  qed
qed

subsection \<open>An archive whose records are not in name order\<close>

definition example_record :: "string \<Rightarrow> zipfile" where
  "example_record nm = \<lparr>Name = nm, UncompressedSize64 = 0, Mode = 420, ModTime = 0\<rparr>"

definition unsorted_fs :: ZipFS where
  "unsorted_fs = projr (NewZipFS 0 [example_record ''b.txt'', example_record ''a.txt''])"

definition root_reader :: dirReader where
  "root_reader = \<lparr>dr_info = 0, dr_path = ''.'', dr_pos = 0\<rparr>"

lemma unsorted_fs_built:
  "isl (NewZipFS 0 [example_record ''b.txt'', example_record ''a.txt'']) = False"
  by code_simp

lemma unsorted_fs_Open: "ZipFS_Open unsorted_fs ''.'' = Inr (DirReader root_reader)"
  by code_simp

lemma unsorted_fs_entries:
  "di_entries (objs unsorted_fs ! 0) = [fileEntry (example_record ''b.txt''), fileEntry (example_record ''a.txt'')]"
  by code_simp

subsection \<open>Order of the entries a directory reader presents\<close>

text \<open>
  Claim C2, as stated, fails. For the archive with the records \<^verbatim>\<open>b.txt\<close>, \<^verbatim>\<open>a.txt\<close> in this
  order, the reader opened on the root returns, for \<^verbatim>\<open>ReadDir(-1)\<close>, the window over the
  whole child array of the index, with the names \<^verbatim>\<open>b.txt\<close>, \<^verbatim>\<open>a.txt\<close>: not sorted.
\<close>

theorem ReadDir_not_sorted_counterexample:
  "isl (NewZipFS 0 [example_record ''b.txt'', example_record ''a.txt'']) = False
   \<and> ZipFS_Open unsorted_fs ''.'' = Inr (DirReader root_reader)
   \<and> dirReader_ReadDir unsorted_fs root_reader (- 1) = (root_reader\<lparr>dr_pos := 2\<rparr>, Inr (Window 0 0 2))
   \<and> map (DirEntry_Name unsorted_fs) (slice_entries unsorted_fs (Window 0 0 2)) = [''b.txt'', ''a.txt'']
   \<and> \<not> sorted (map (DirEntry_Name unsorted_fs) (slice_entries unsorted_fs (Window 0 0 2)))"
proof -
  have 1: "dirReader_ReadDir unsorted_fs root_reader (- 1) = (root_reader\<lparr>dr_pos := 2\<rparr>, Inr (Window 0 0 2))"
    by code_simp
  have 2: "map (DirEntry_Name unsorted_fs) (slice_entries unsorted_fs (Window 0 0 2)) = [''b.txt'', ''a.txt'']"
    by code_simp
  have 3: "\<not> sorted [''b.txt'', ''a.txt'']"
    by code_simp
  from unsorted_fs_built unsorted_fs_Open 1 2 3 show ?thesis by simp
qed

text \<open>
  Claim C2, amended. A directory reader presents the children in the order of the child
  array stored in the index (the order in which the records were indexed), and does not
  sort: for \<open>n \<le> 0\<close> the slice returned holds the stored children from the cursor to the
  end; every slice returned by a bounded call holds the stored children from the old cursor
  to the new one; and \<open>k\<close> successive bounded calls yield the next \<open>k * n\<close> stored children
  in stored order, when the number of children plus \<open>n\<close> is within the range of \<^verbatim>\<open>int\<close>.
\<close>

theorem ReadDir_stored_order:
  assumes "dr_pos d \<le> length (di_entries (objs z ! dr_info d))"
  shows "(sint n \<le> 0 \<longrightarrow>
           (\<exists>d' s. dirReader_ReadDir z d n = (d', Inr s)
              \<and> slice_entries z s = drop (dr_pos d) (di_entries (objs z ! dr_info d))))
       \<and> (\<forall>d' s. 0 < sint n \<and> dirReader_ReadDir z d n = (d', Inr s) \<longrightarrow>
             slice_entries z s
               = take (dr_pos d' - dr_pos d) (drop (dr_pos d) (di_entries (objs z ! dr_info d))))
       \<and> (0 < sint n \<and> int (length (di_entries (objs z ! dr_info d))) + sint n < 2 ^ 63 \<longrightarrow>
           (\<forall>k. successive_ReadDir z d n k
              = take (k * nat (sint n)) (drop (dr_pos d) (di_entries (objs z ! dr_info d)))))"
proof (intro conjI impI allI)
  assume "sint n \<le> 0"
  then show "\<exists>d' s. dirReader_ReadDir z d n = (d', Inr s)
              \<and> slice_entries z s = drop (dr_pos d) (di_entries (objs z ! dr_info d))"
    using assms by (simp add: ReadDir_all slice_entries_def)
next
  fix d' s
  assume "0 < sint n \<and> dirReader_ReadDir z d n = (d', Inr s)"
  then show "slice_entries z s
      = take (dr_pos d' - dr_pos d) (drop (dr_pos d) (di_entries (objs z ! dr_info d)))"
    by (auto simp: dirReader_ReadDir_def Let_def slice_entries_def split: if_splits)
next
  fix k
  assume "0 < sint n \<and> int (length (di_entries (objs z ! dr_info d))) + sint n < 2 ^ 63"
  then show "successive_ReadDir z d n k
      = take (k * nat (sint n)) (drop (dr_pos d) (di_entries (objs z ! dr_info d)))"
    using assms successive_ReadDir_take [of n z "dr_info d" d k] by simp
qed

text \<open>
  Witness for C2 amended: the root reader of the archive above, read whole and read by two
  calls of one entry.
\<close>

theorem ReadDir_stored_order_witness:
  "dr_pos root_reader \<le> length (di_entries (objs unsorted_fs ! dr_info root_reader))
   \<and> (\<exists>d' s. dirReader_ReadDir unsorted_fs root_reader 0 = (d', Inr s)
         \<and> slice_entries unsorted_fs s
           = [fileEntry (example_record ''b.txt''), fileEntry (example_record ''a.txt'')])
   \<and> successive_ReadDir unsorted_fs root_reader 1 2
       = [fileEntry (example_record ''b.txt''), fileEntry (example_record ''a.txt'')]"
proof -
  let ?es = "di_entries (objs unsorted_fs ! dr_info root_reader)"
  have es: "?es = [fileEntry (example_record ''b.txt''), fileEntry (example_record ''a.txt'')]"
    using unsorted_fs_entries by (simp add: root_reader_def)
  have h: "dr_pos root_reader \<le> length ?es"
    by (simp add: es) (simp add: root_reader_def)
  have p: "dr_pos root_reader = 0"
    by (simp add: root_reader_def)
  have n1: "0 < sint (1 :: 64 word) \<and> int (length ?es) + sint (1 :: 64 word) < 2 ^ 63"
    by (simp add: es)
  from ReadDir_stored_order [OF h, of 0]
  have a: "\<exists>d' s. dirReader_ReadDir unsorted_fs root_reader 0 = (d', Inr s)
         \<and> slice_entries unsorted_fs s = drop (dr_pos root_reader) ?es"
    by simp
  from ReadDir_stored_order [OF h, of 1] n1
  have "\<forall>k. successive_ReadDir unsorted_fs root_reader 1 k
      = take (k * nat (sint (1 :: 64 word))) (drop (dr_pos root_reader) ?es)"
    by blast
  then have "successive_ReadDir unsorted_fs root_reader 1 2
      = take (2 * nat (sint (1 :: 64 word))) (drop (dr_pos root_reader) ?es)"
    by blast
  then have b: "successive_ReadDir unsorted_fs root_reader 1 2 = ?es"
    by (simp add: es p)
  from h a b show ?thesis
    by (simp add: es p)
qed

subsection \<open>Closing a directory reader\<close>

text \<open>
  \<^verbatim>\<open>Close\<close> on a directory reader returns no error, also when repeated, and sets the cursor
  to 0 (the state of the reader as \<^verbatim>\<open>Open\<close> made it); a \<^verbatim>\<open>ReadDir\<close> after \<^verbatim>\<open>Close\<close> starts
  again at the first child: all children for \<open>n \<le> 0\<close>, end-of-sequence for an empty
  directory and the first \<open>n\<close> children otherwise.
\<close>

lemma dirReader_Close_rewinds:
  "snd (dirReader_Close d) = None
   \<and> snd (dirReader_Close (fst (dirReader_Close d))) = None
   \<and> fst (dirReader_Close d) = d\<lparr>dr_pos := 0\<rparr>
   \<and> fst (dirReader_Close (fst (dirReader_Close d))) = fst (dirReader_Close d)
   \<and> (\<forall>name d0 p. ZipFS_Open z name = Inr (DirReader d0) \<longrightarrow>
         fst (dirReader_Close (d0\<lparr>dr_pos := p\<rparr>)) = d0)
   \<and> dirReader_ReadDir z (fst (dirReader_Close d)) n =
       (if sint n \<le> 0 then
          (d\<lparr>dr_pos := length (di_entries (objs z ! dr_info d))\<rparr>,
           Inr (Window (dr_info d) 0 (length (di_entries (objs z ! dr_info d)))))
        else if di_entries (objs z ! dr_info d) = [] then (d\<lparr>dr_pos := 0\<rparr>, Inl EOF)
        else
          (d\<lparr>dr_pos := min (nat (sint n)) (length (di_entries (objs z ! dr_info d)))\<rparr>,
           Inr (Window (dr_info d) 0
                 (min (nat (sint n)) (length (di_entries (objs z ! dr_info d)))))))
   \<and> slice_entries z (Window (dr_info d) 0 (length (di_entries (objs z ! dr_info d))))
       = di_entries (objs z ! dr_info d)
   \<and> slice_entries z (Window (dr_info d) 0
         (min (nat (sint n)) (length (di_entries (objs z ! dr_info d)))))
       = take (nat (sint n)) (di_entries (objs z ! dr_info d))"
proof -
  let ?es = "di_entries (objs z ! dr_info d)"
  let ?d = "d\<lparr>dr_pos := 0\<rparr>"
  have c: "dirReader_Close d = (?d, None)"
    by (simp add: dirReader_Close_def)
  have c2: "dirReader_Close ?d = (?d, None)"
    by (simp add: dirReader_Close_def)
  have o: "\<forall>name d0 p. ZipFS_Open z name = Inr (DirReader d0) \<longrightarrow>
         fst (dirReader_Close (d0\<lparr>dr_pos := p\<rparr>)) = d0"
    by (auto simp: ZipFS_Open_def dirReader_Close_def Let_def split: if_splits option.splits)
  have r: "dirReader_ReadDir z ?d n =
       (if sint n \<le> 0 then (d\<lparr>dr_pos := length ?es\<rparr>, Inr (Window (dr_info d) 0 (length ?es)))
        else if ?es = [] then (d\<lparr>dr_pos := 0\<rparr>, Inl EOF)
        else (d\<lparr>dr_pos := min (nat (sint n)) (length ?es)\<rparr>,
              Inr (Window (dr_info d) 0 (min (nat (sint n)) (length ?es)))))"
  proof (cases "sint n \<le> 0")
    case True
    then show ?thesis using ReadDir_all [of n ?d z] by simp
  next
    case n: False
    show ?thesis
    proof (cases "?es = []")
      case True
      then show ?thesis using n ReadDir_at_end [of n z ?d] by simp
    next
      case False
      have "sint n < 2 ^ 63" using sint_lt [of n] by simp
      then show ?thesis using n False ReadDir_some [of n ?d z] by simp
    qed
  qed
  have s1: "slice_entries z (Window (dr_info d) 0 (length ?es)) = ?es"
    by (simp add: slice_entries_def)
  have s2: "slice_entries z (Window (dr_info d) 0 (min (nat (sint n)) (length ?es)))
      = take (nat (sint n)) ?es"
    by (simp add: slice_entries_def min_def)
  from c c2 o r s1 s2 show ?thesis by simp
qed

subsection \<open>Pagination\<close>

text \<open>
  Where \<^verbatim>\<open>d.pos + n\<close> does not overflow, \<^verbatim>\<open>ReadDir\<close> pages as lemmas \<open>ReadDir_all\<close>,
  \<open>ReadDir_at_end\<close> and \<open>ReadDir_some\<close> say; on a directory of two children, two calls of one
  entry return them one by one and the third call returns \<^verbatim>\<open>io.EOF\<close>.
\<close>

lemma ReadDir_pagination_scenario:
  assumes "di_entries (objs z ! dr_info d) = [x, y]" and "dr_pos d = 0"
  shows "dirReader_ReadDir z d 1 = (d\<lparr>dr_pos := 1\<rparr>, Inr (Window (dr_info d) 0 1))"
    and "slice_entries z (Window (dr_info d) 0 1) = [x]"
    and "dirReader_ReadDir z (d\<lparr>dr_pos := 1\<rparr>) 1 = (d\<lparr>dr_pos := 2\<rparr>, Inr (Window (dr_info d) 1 2))"
    and "slice_entries z (Window (dr_info d) 1 2) = [y]"
    and "dirReader_ReadDir z (d\<lparr>dr_pos := 2\<rparr>) 1 = (d\<lparr>dr_pos := 2\<rparr>, Inl EOF)"
  using assms by (simp_all add: dirReader_ReadDir_def slice_entries_def Let_def)

text \<open>
  Claim C6 says that a call with \<open>n > 0\<close> returns at most \<open>n\<close> entries, as the comment of
  \<^verbatim>\<open>ReadDir\<close> does. The code does not for every \<open>n\<close>: with the cursor at 1 of 2 children and
  \<open>n\<close> the largest \<^verbatim>\<open>int\<close>, the sum \<^verbatim>\<open>d.pos + n\<close> wraps around to a negative \<open>end\<close>, the
  comparison with the length does not catch it, and the slice expression
  \<^verbatim>\<open>d.info.entries[d.pos:end]\<close> panics.
\<close>

theorem ReadDir_bounded_overflow_panics:
  "ZipFS_Open unsorted_fs ''.'' = Inr (DirReader root_reader)
   \<and> dirReader_ReadDir unsorted_fs root_reader 1
       = (root_reader\<lparr>dr_pos := 1\<rparr>, Inr (Window 0 0 1))
   \<and> (0 :: int) < sint (9223372036854775807 :: 64 word)
   \<and> dirReader_ReadDir unsorted_fs (root_reader\<lparr>dr_pos := 1\<rparr>) 9223372036854775807
       = (root_reader\<lparr>dr_pos := 1\<rparr>, Inl Panic)"
proof -
  have 1: "dirReader_ReadDir unsorted_fs root_reader 1
       = (root_reader\<lparr>dr_pos := 1\<rparr>, Inr (Window 0 0 1))"
    by code_simp
  have 2: "(0 :: int) < sint (9223372036854775807 :: 64 word)"
    by simp
  have 3: "dirReader_ReadDir unsorted_fs (root_reader\<lparr>dr_pos := 1\<rparr>) 9223372036854775807
       = (root_reader\<lparr>dr_pos := 1\<rparr>, Inl Panic)"
    by code_simp
  from unsorted_fs_Open 1 2 3 show ?thesis by simp
qed

section \<open>Valid paths\<close>

text \<open>
  A path that \<^verbatim>\<open>fs.ValidPath\<close> accepts is left as it is by \<^verbatim>\<open>path.Clean\<close>, and joining two
  such paths puts one separator between them.
\<close>

lemma ValidString_append: "ValidString a \<Longrightarrow> ValidString (a @ b) = ValidString b"
proof (induction a rule: ValidString.induct)
  case 1
  then show ?case by simp
next
  case (2 c cs)
  show ?case
  proof (cases "(of_char c :: nat) < 0x80")
    case True
    with 2 show ?thesis by simp
  next
    case False
    from "2.prems" False have sz: "rune_size (of_char c) \<noteq> 0"
      and len: "\<not> Suc (length cs) < rune_size (of_char c)"
      and c1: "in_range (cs ! 0) (second_lo (of_char c)) (second_hi (of_char c))"
      by (auto split: if_splits)
    have sz_cases: "rune_size (of_char c) = 2 \<or> rune_size (of_char c) = 3 \<or> rune_size (of_char c) = 4"
      using sz False by (auto simp: rune_size_def split: if_splits)
    then show ?thesis
    proof (elim disjE)
      assume s: "rune_size (of_char c) = 2"
      from len s obtain x xs where cs: "cs = x # xs"
        by (cases cs) auto
      from "2.prems" False s c1 have v: "ValidString (drop 1 cs)" by (auto split: if_splits)
      have "ValidString (drop 1 cs @ b) = ValidString b"
        using "2.IH"(2) False sz len c1 s v by simp
      then show ?thesis using False s c1 unfolding cs by simp
    next
      assume s: "rune_size (of_char c) = 3"
      from len s obtain x y xs where cs: "cs = x # y # xs"
        by (cases cs; cases "tl cs") auto
      from "2.prems" False s c1 have c2: "in_range (cs ! 1) 0x80 0xBF" and v: "ValidString (drop 2 cs)"
        by (auto split: if_splits)
      have "ValidString (drop 2 cs @ b) = ValidString b"
        using "2.IH"(3) False sz len c1 s c2 v by simp
      then show ?thesis using False s c1 c2 unfolding cs by simp
    next
      assume s: "rune_size (of_char c) = 4"
      from len s obtain x y w xs where cs: "cs = x # y # w # xs"
        by (cases cs; cases "tl cs"; cases "tl (tl cs)") auto
      from "2.prems" False s c1 have c2: "in_range (cs ! 1) 0x80 0xBF"
        and c3: "in_range (cs ! 2) 0x80 0xBF" and v: "ValidString (drop 3 cs)"
        by (auto split: if_splits)
      have "ValidString (drop 3 cs @ b) = ValidString b"
        using "2.IH"(4) False sz len c1 s c2 c3 v by simp
      then show ?thesis using False s c1 c2 c3 unfolding cs by simp
    qed
  qed
qed

text \<open>Separator to add before the next element.\<close>

definition with_sep :: "bool \<Rightarrow> string \<Rightarrow> string" where
  "with_sep rooted buf =
     (if rooted \<and> length buf \<noteq> 1 \<or> \<not> rooted \<and> length buf \<noteq> 0 then buf @ [sep] else buf)"

lemma with_sep_elem: "elem \<noteq> [] \<Longrightarrow> with_sep rooted (with_sep rooted buf @ elem) = with_sep rooted buf @ elem @ [sep]"
  by (cases elem) (auto simp: with_sep_def)

lemma clean_loop_elem:
  assumes "elem \<noteq> []" and "sep \<notin> set elem" and "elem \<noteq> ''.''" and "elem \<noteq> ''..''"
    and "R = [] \<or> hd R = sep"
  shows "clean_loop rooted buf dd (elem @ R) = clean_loop rooted (with_sep rooted buf @ elem) dd R"
proof -
  from assms(1) obtain c cs where e: "elem = c # cs" by (cases elem) auto
  with assms(2) have c: "c \<noteq> sep" and cs: "sep \<notin> set cs" by auto
  have all: "\<And>x. x \<in> set cs \<Longrightarrow> x \<noteq> sep"
    using cs by auto
  have tw: "takeWhile (\<lambda>c. c \<noteq> sep) (cs @ R) = cs"
    using assms(5) all by (cases R) (simp_all add: takeWhile_append2 [OF all] takeWhile_eq_all_conv)
  have dw: "dropWhile (\<lambda>c. c \<noteq> sep) (cs @ R) = R"
    using assms(5) all by (cases R) (simp_all add: dropWhile_append2 [OF all] dropWhile_eq_Nil_conv)
  have n1: "\<not> (c = dot \<and> (cs @ R = [] \<or> hd (cs @ R) = sep))"
    using assms(3) cs e by (cases cs) auto
  have n2: "\<not> (c = dot \<and> hd (cs @ R) = dot \<and> (tl (cs @ R) = [] \<or> hd (tl (cs @ R)) = sep))"
  proof (cases cs)
    case Nil
    then show ?thesis using assms(3,5) e by (cases R) auto
  next
    case (Cons c' cs')
    then show ?thesis using assms(4) cs e by (cases cs') auto
  qed
  have "clean_loop rooted buf dd (c # (cs @ R)) =
      clean_loop rooted (with_sep rooted buf @ c # takeWhile (\<lambda>c. c \<noteq> sep) (cs @ R)) dd
        (dropWhile (\<lambda>c. c \<noteq> sep) (cs @ R))"
    apply (subst clean_loop.simps(2))
    apply (subst if_not_P [OF c])
    apply (subst if_not_P [OF n1])
    apply (subst if_not_P [OF n2])
    apply (simp only: Let_def with_sep_def)
    done
  then show ?thesis by (simp add: e tw dw)
qed

lemma valid_elems_unfold:
  "valid_elems name =
     (takeWhile (\<lambda>c. c \<noteq> sep) name \<notin> {[], ''.'', ''..''}
      \<and> (dropWhile (\<lambda>c. c \<noteq> sep) name = [] \<or> valid_elems (tl (dropWhile (\<lambda>c. c \<noteq> sep) name))))"
  by (subst valid_elems.simps) (auto simp: Let_def)

lemma valid_elems_clean_loop:
  "valid_elems p \<Longrightarrow> R = [] \<or> hd R = sep \<Longrightarrow>
   clean_loop rooted buf dd (p @ R) = clean_loop rooted (with_sep rooted buf @ p) dd R"
proof (induction p arbitrary: buf rule: valid_elems.induct)
  case (1 name)
  let ?e = "takeWhile (\<lambda>c. c \<noteq> sep) name"
  let ?r = "dropWhile (\<lambda>c. c \<noteq> sep) name"
  have nm: "name = ?e @ ?r" by simp
  from "1.prems"(1) have e: "?e \<noteq> []" "?e \<noteq> ''.''" "?e \<noteq> ''..''"
    and r: "?r = [] \<or> valid_elems (tl ?r)"
    by (subst (asm) valid_elems_unfold, simp)+
  have ns: "sep \<notin> set ?e" by (auto dest: set_takeWhileD)
  show ?case
  proof (cases "?r = []")
    case True
    then have "name = ?e" using nm by (metis append_Nil2)
    then show ?thesis using clean_loop_elem [OF e(1) ns e(2) e(3) "1.prems"(2)] by simp
  next
    case False
    with r have v: "valid_elems (tl ?r)" by blast
    from False have hr: "hd ?r = sep" using hd_dropWhile [of "\<lambda>c. c \<noteq> sep" name] by simp
    with False have rr: "?r = sep # tl ?r" by (cases ?r) auto
    have "clean_loop rooted buf dd (name @ R) = clean_loop rooted buf dd (?e @ (?r @ R))"
      by (metis append.assoc nm)
    also have "\<dots> = clean_loop rooted (with_sep rooted buf @ ?e) dd (?r @ R)"
      using False hr by (intro clean_loop_elem [OF e(1) ns e(2) e(3)]) simp
    also have "\<dots> = clean_loop rooted (with_sep rooted buf @ ?e) dd (sep # (tl ?r @ R))"
      by (metis rr append_Cons)
    also have "\<dots> = clean_loop rooted (with_sep rooted buf @ ?e) dd (tl ?r @ R)"
      by simp
    also have "\<dots> = clean_loop rooted (with_sep rooted (with_sep rooted buf @ ?e) @ tl ?r) dd R"
      using "1.IH" [OF refl refl _ False v "1.prems"(2)] e by simp
    also have "with_sep rooted (with_sep rooted buf @ ?e) @ tl ?r = with_sep rooted buf @ name"
      using with_sep_elem [OF e(1)] by (metis nm rr append.assoc append_Cons append_Nil)
    finally show ?thesis .
  qed
qed

lemma valid_elems_first: "valid_elems p \<Longrightarrow> takeWhile (\<lambda>c. c \<noteq> sep) p \<noteq> []"
  by (subst (asm) valid_elems_unfold) simp

lemma valid_elems_not_Nil: "valid_elems p \<Longrightarrow> p \<noteq> []"
  using valid_elems_first [of p] by (cases p) simp_all

lemma valid_elems_hd: "valid_elems p \<Longrightarrow> hd p \<noteq> sep"
  using valid_elems_first [of p] by (cases p) (simp_all split: if_splits)

lemma valid_elems_append:
  "valid_elems a \<Longrightarrow> valid_elems (a @ sep # b) = valid_elems b"
proof (induction a rule: valid_elems.induct)
  case (1 name)
  let ?e = "takeWhile (\<lambda>c. c \<noteq> sep) name"
  let ?r = "dropWhile (\<lambda>c. c \<noteq> sep) name"
  from "1.prems"(1) have e: "?e \<noteq> []" "?e \<noteq> ''.''" "?e \<noteq> ''..''"
    and r: "?r = [] \<or> valid_elems (tl ?r)"
    by (subst (asm) valid_elems_unfold, simp)+
  show ?case
  proof (cases "?r = []")
    case True
    then have all: "\<And>x. x \<in> set name \<Longrightarrow> x \<noteq> sep" by (simp add: dropWhile_eq_Nil_conv)
    have tw: "takeWhile (\<lambda>c. c \<noteq> sep) (name @ sep # b) = name"
      by (simp add: takeWhile_append2 [OF all])
    have dw: "dropWhile (\<lambda>c. c \<noteq> sep) (name @ sep # b) = sep # b"
      by (simp add: dropWhile_append2 [OF all])
    have en: "?e = name" using all by (simp add: takeWhile_eq_all_conv)
    have "name \<noteq> []" "name \<noteq> ''.''" "name \<noteq> ''..''"
      using e unfolding en by blast+
    then show ?thesis
      by (subst valid_elems_unfold) (simp add: tw dw)
  next
    case False
    with r have v: "valid_elems (tl ?r)" by blast
    from False have ex: "\<exists>x \<in> set name. \<not> x \<noteq> sep"
      by (simp add: dropWhile_eq_Nil_conv)
    have tw: "takeWhile (\<lambda>c. c \<noteq> sep) (name @ sep # b) = ?e"
      using ex by (simp add: takeWhile_append1)
    have dw: "dropWhile (\<lambda>c. c \<noteq> sep) (name @ sep # b) = ?r @ sep # b"
      using ex by (simp add: dropWhile_append1)
    have "tl (?r @ sep # b) = tl ?r @ sep # b" using False by simp
    moreover have "valid_elems (tl ?r @ sep # b) = valid_elems b"
      using "1.IH" [OF refl refl _ False v] e by simp
    ultimately show ?thesis
      using e False by (subst valid_elems_unfold) (simp add: tw dw)
  qed
qed

lemma clean_loop_valid:
  "valid_elems p \<Longrightarrow> clean_loop rooted buf dd p = with_sep rooted buf @ p"
  using valid_elems_clean_loop [of p "[]" rooted buf dd] by simp

lemma clean_loop_valid_sep:
  "valid_elems p \<Longrightarrow> clean_loop rooted buf dd (p @ sep # R) = clean_loop rooted (with_sep rooted buf @ p) dd R"
  using valid_elems_clean_loop [of p "sep # R" rooted buf dd] by simp

lemma Clean_valid_elems: "valid_elems p \<Longrightarrow> Clean p = p"
  using valid_elems_not_Nil [of p] valid_elems_hd [of p] clean_loop_valid [of p False "[]" 0]
  by (simp add: Clean_def with_sep_def del: clean_loop.simps)

lemma Clean_dot [simp]: "Clean ''.'' = ''.''"
  by (simp add: Clean_def)

lemma Clean_valid: "ValidPath p \<Longrightarrow> Clean p = p"
  by (auto simp: ValidPath_def Clean_valid_elems split: if_splits)

lemma ValidPath_cases: "ValidPath p \<Longrightarrow> p = ''.'' \<or> valid_elems p"
  by (auto simp: ValidPath_def split: if_splits)

lemma ValidPath_ValidString: "ValidPath p \<Longrightarrow> ValidString p"
  by (auto simp: ValidPath_def split: if_splits)

lemma Join_valid:
  assumes "valid_elems d" and "valid_elems rel"
  shows "Join [d, rel] = d @ sep # rel"
proof -
  have d: "d \<noteq> []" "hd d \<noteq> sep" using assms(1) by (simp_all add: valid_elems_not_Nil valid_elems_hd)
  have "valid_elems (d @ sep # rel)" using assms by (simp add: valid_elems_append)
  then have "Clean (d @ sep # rel) = d @ sep # rel" by (rule Clean_valid_elems)
  then show ?thesis using d by (simp add: Join_def)
qed

lemma Join_valid_dot:
  assumes "valid_elems d"
  shows "Join [d, ''.''] = d"
proof -
  have d: "d \<noteq> []" "hd d \<noteq> sep" using assms(1) by (simp_all add: valid_elems_not_Nil valid_elems_hd)
  have "clean_loop False [] 0 (d @ sep # ''.'') = clean_loop False (with_sep False [] @ d) 0 ''.''"
    using assms by (rule clean_loop_valid_sep)
  also have "\<dots> = d" by (simp add: with_sep_def)
  finally have "Clean (d @ sep # ''.'') = d"
    using d by (simp add: Clean_def del: clean_loop.simps)
  then show ?thesis using d by (simp add: Join_def)
qed

lemma Join_dot_valid:
  assumes "ValidPath rel"
  shows "Join [''.'', rel] = rel"
proof -
  from ValidPath_cases [OF assms] show ?thesis
  proof
    assume "rel = ''.''"
    then show ?thesis by (simp add: Join_def Clean_def)
  next
    assume v: "valid_elems rel"
    then have r: "rel \<noteq> []" by (rule valid_elems_not_Nil)
    have "clean_loop False [] 0 (dot # sep # rel) = clean_loop False [] 0 rel"
      by simp
    also have "\<dots> = rel" using v by (simp add: clean_loop_valid with_sep_def)
    finally have "Clean (dot # sep # rel) = rel"
      using r by (simp add: Clean_def del: clean_loop.simps)
    then show ?thesis by (simp add: Join_def)
  qed
qed

lemma ValidPath_Join:
  assumes "ValidPath d" and "d \<noteq> ''.''" and "ValidPath rel" and "rel \<noteq> ''.''"
  shows "Join [d, rel] = d @ sep # rel" and "ValidPath (d @ sep # rel)"
proof -
  have vd: "valid_elems d" and vr: "valid_elems rel"
    using assms ValidPath_cases by blast+
  show "Join [d, rel] = d @ sep # rel" using vd vr by (rule Join_valid)
  have "ValidString (d @ sep # rel) = ValidString (sep # rel)"
    using assms(1) by (intro ValidString_append ValidPath_ValidString)
  then have "ValidString (d @ sep # rel)"
    using assms(3) by (simp add: ValidPath_ValidString)
  moreover have "valid_elems (d @ sep # rel)" using vd vr by (simp add: valid_elems_append)
  ultimately show "ValidPath (d @ sep # rel)" by (simp add: ValidPath_def)
qed

lemma TrimPrefix_append [simp]: "TrimPrefix (a @ b) a = b"
  by (simp add: TrimPrefix_def HasPrefix_def)

lemma TrimPrefix_longer [simp]: "TrimPrefix a (a @ c # cs) = a"
  by (simp add: TrimPrefix_def HasPrefix_def)

section \<open>Opening paths on the root view\<close>

text \<open>
  The path contract in the words of the specification: the segments of a path are the
  pieces between its separators; a path violates the contract when it is empty, starts with
  a separator, or has an empty or a \<^verbatim>\<open>..\<close> segment.
\<close>

function split_sep :: "string \<Rightarrow> string list" where
  "split_sep p =
     (let elem = takeWhile (\<lambda>c. c \<noteq> sep) p;
          rest = dropWhile (\<lambda>c. c \<noteq> sep) p
      in if rest = [] then [elem] else elem # split_sep (tl rest))"
  by pat_completeness auto
termination
proof (relation "measure length")
  fix p :: string and elem rest
  assume "rest = dropWhile (\<lambda>c. c \<noteq> sep) p" and "rest \<noteq> []"
  then have "length (tl rest) < length rest" and "length rest \<le> length p"
    by (simp_all add: length_dropWhile_le)
  then show "(tl rest, p) \<in> measure length"
    by simp
qed simp

declare split_sep.simps [simp del]

definition violates_contract :: "string \<Rightarrow> bool" where
  "violates_contract p =
     (p = [] \<or> hd p = sep \<or> [] \<in> set (split_sep p) \<or> ''..'' \<in> set (split_sep p))"

lemma split_sep_last:
  "dropWhile (\<lambda>c. c \<noteq> sep) p = [] \<Longrightarrow> split_sep p = [takeWhile (\<lambda>c. c \<noteq> sep) p]"
  by (subst split_sep.simps) (simp only: Let_def if_True simp_thms)

lemma split_sep_more:
  "dropWhile (\<lambda>c. c \<noteq> sep) p \<noteq> [] \<Longrightarrow>
   split_sep p = takeWhile (\<lambda>c. c \<noteq> sep) p # split_sep (tl (dropWhile (\<lambda>c. c \<noteq> sep) p))"
  by (subst split_sep.simps) (simp only: Let_def if_False simp_thms)

lemma valid_elems_segments:
  "valid_elems p \<Longrightarrow> s \<in> set (split_sep p) \<Longrightarrow> s \<noteq> [] \<and> s \<noteq> ''.'' \<and> s \<noteq> ''..''"
proof (induction p rule: valid_elems.induct)
  case (1 name)
  let ?e = "takeWhile (\<lambda>c. c \<noteq> sep) name"
  let ?r = "dropWhile (\<lambda>c. c \<noteq> sep) name"
  from "1.prems"(1) have e: "?e \<noteq> []" "?e \<noteq> ''.''" "?e \<noteq> ''..''"
    and r: "?r = [] \<or> valid_elems (tl ?r)"
    by (subst (asm) valid_elems_unfold, simp)+
  have ne: "\<not> (?e = [] \<or> ?e = ''.'' \<or> ?e = ''..'')"
    using e by simp
  show ?case
  proof (cases "?r = []")
    case True
    then have "split_sep name = [?e]" by (rule split_sep_last)
    with "1.prems"(2) have "s = ?e" by simp
    with e show ?thesis by simp
  next
    case False
    with r have v: "valid_elems (tl ?r)" by blast
    from False have "split_sep name = ?e # split_sep (tl ?r)"
      by (rule split_sep_more)
    with "1.prems"(2) have "s = ?e \<or> s \<in> set (split_sep (tl ?r))" by simp
    then show ?thesis
    proof
      assume "s = ?e"
      with e show ?thesis by simp
    next
      assume "s \<in> set (split_sep (tl ?r))"
      then show ?thesis by (rule "1.IH" [OF refl refl ne False v])
    qed
  qed
qed

lemma violates_contract_invalid: "violates_contract p \<Longrightarrow> \<not> ValidPath p"
proof
  assume v: "violates_contract p" and "ValidPath p"
  from ValidPath_cases [OF this(2)] show False
  proof
    assume "p = ''.''"
    moreover have "split_sep ''.'' = [''.'']" by (subst split_sep.simps) simp
    ultimately show False using v by (simp add: violates_contract_def)
  next
    assume ve: "valid_elems p"
    from v valid_elems_not_Nil [OF ve] valid_elems_hd [OF ve]
    have "[] \<in> set (split_sep p) \<or> ''..'' \<in> set (split_sep p)"
      by (simp add: violates_contract_def)
    then show False using valid_elems_segments [OF ve] by blast
  qed
qed

lemma ZipFS_Open_invalid:
  "\<not> ValidPath name \<Longrightarrow> ZipFS_Open z name = Inl (PathError ''open'' name ErrInvalid)"
  by (simp add: ZipFS_Open_def)

lemma ZipFS_Open_missing:
  "ValidPath name \<Longrightarrow> dirs z name = None \<Longrightarrow> files z name = None \<Longrightarrow>
   ZipFS_Open z name = Inl (PathError ''open'' name ErrNotExist)"
  by (simp add: ZipFS_Open_def Clean_valid)

lemma ZipFS_Open_no_panic: "ZipFS_Open z name \<noteq> Inl Panic"
  by (simp add: ZipFS_Open_def Let_def split: option.split)

text \<open>
  Claim C7. On the root filesystem, \<^verbatim>\<open>Open\<close> of \<^verbatim>\<open>"../x"\<close>, \<^verbatim>\<open>"/x"\<close> and \<^verbatim>\<open>""\<close>, of every
  path that violates the contract, and of every path \<^verbatim>\<open>fs.ValidPath\<close> refuses, fails with
  \<^verbatim>\<open>fs.ErrInvalid\<close>; \<^verbatim>\<open>Open\<close> of a valid path that is neither an indexed directory nor an
  indexed file fails with \<^verbatim>\<open>fs.ErrNotExist\<close>; and no path makes \<^verbatim>\<open>Open\<close> panic.
\<close>

theorem Open_path_boundary:
  "ZipFS_Open z ''../x'' = Inl (PathError ''open'' ''../x'' ErrInvalid)
   \<and> ZipFS_Open z ''/x'' = Inl (PathError ''open'' ''/x'' ErrInvalid)
   \<and> ZipFS_Open z [] = Inl (PathError ''open'' [] ErrInvalid)
   \<and> (\<forall>name. violates_contract name \<longrightarrow>
         ZipFS_Open z name = Inl (PathError ''open'' name ErrInvalid))
   \<and> (\<forall>name. \<not> ValidPath name \<longrightarrow>
         ZipFS_Open z name = Inl (PathError ''open'' name ErrInvalid))
   \<and> (\<forall>name. ValidPath name \<and> dirs z name = None \<and> files z name = None \<longrightarrow>
         ZipFS_Open z name = Inl (PathError ''open'' name ErrNotExist))
   \<and> (\<forall>name. ZipFS_Open z name \<noteq> Inl Panic)"
proof -
  have 1: "\<not> ValidPath ''../x''" by code_simp
  have 2: "\<not> ValidPath ''/x''" by code_simp
  have 3: "\<not> ValidPath []" by code_simp
  show ?thesis
    using ZipFS_Open_invalid [OF 1] ZipFS_Open_invalid [OF 2] ZipFS_Open_invalid [OF 3]
      ZipFS_Open_invalid ZipFS_Open_missing ZipFS_Open_no_panic violates_contract_invalid
    by blast
qed

text \<open>
  Witness for C7: two paths that violate the contract and a valid path that is not indexed,
  on the archive of the two records \<^verbatim>\<open>b.txt\<close>, \<^verbatim>\<open>a.txt\<close>.
\<close>

theorem Open_path_boundary_witness:
  "violates_contract ''a//b''
   \<and> ZipFS_Open unsorted_fs ''a//b'' = Inl (PathError ''open'' ''a//b'' ErrInvalid)
   \<and> violates_contract ''a/../b''
   \<and> ZipFS_Open unsorted_fs ''a/../b'' = Inl (PathError ''open'' ''a/../b'' ErrInvalid)
   \<and> ValidPath ''missing/path''
   \<and> dirs unsorted_fs ''missing/path'' = None
   \<and> files unsorted_fs ''missing/path'' = None
   \<and> ZipFS_Open unsorted_fs ''missing/path'' = Inl (PathError ''open'' ''missing/path'' ErrNotExist)"
proof -
  have v1: "violates_contract ''a//b''" by code_simp
  have v2: "violates_contract ''a/../b''" by code_simp
  have p: "ValidPath ''missing/path''" by code_simp
  have d: "dirs unsorted_fs ''missing/path'' = None" by code_simp
  have f: "files unsorted_fs ''missing/path'' = None" by code_simp
  note t = Open_path_boundary [of unsorted_fs]
  from t v1 have a: "ZipFS_Open unsorted_fs ''a//b'' = Inl (PathError ''open'' ''a//b'' ErrInvalid)"
    by blast
  from t v2 have b: "ZipFS_Open unsorted_fs ''a/../b'' = Inl (PathError ''open'' ''a/../b'' ErrInvalid)"
    by blast
  from t p d f have c: "ZipFS_Open unsorted_fs ''missing/path''
      = Inl (PathError ''open'' ''missing/path'' ErrNotExist)"
    by blast
  from v1 v2 p d f a b c show ?thesis by blast
qed

section \<open>Listing a directory through the filesystem\<close>

lemma ZipFS_ReadDir_found:
  assumes "ValidPath name" and "dirs z name = Some a"
  shows "ZipFS_ReadDir z name = Inr (Copy (SortFunc z (di_entries (objs z ! a))))"
  using assms by (simp add: ZipFS_ReadDir_def Clean_valid)

lemma ZipFS_ReadDir_missing:
  assumes "ValidPath name" and "dirs z name = None"
  shows "ZipFS_ReadDir z name = Inl (PathError ''readdir'' name ErrNotExist)"
  using assms by (simp add: ZipFS_ReadDir_def Clean_valid)

lemma SortFunc_sorted: "sorted (map (DirEntry_Name z) (SortFunc z xs))"
  by (simp add: SortFunc_def)

lemma SortFunc_mset: "mset (SortFunc z xs) = mset xs"
  by (simp add: SortFunc_def)

lemma slice_store_Copy:
  "slice_store z (Copy xs) i v = Inr (z', s') \<Longrightarrow> z' = z"
  by (simp add: slice_store_def split: if_splits)

text \<open>
  The archive with the one record \<^verbatim>\<open>../x\<close>: \<^verbatim>\<open>buildIndex\<close> stores the file under the key
  \<^verbatim>\<open>../x\<close> and synthesizes the directory \<^verbatim>\<open>..\<close>, a key that \<^verbatim>\<open>fs.ValidPath\<close> refuses.
\<close>

definition escaping_fs :: ZipFS where
  "escaping_fs = projr (NewZipFS 0 [example_record ''../x''])"

text \<open>
  Claim C5, as stated, fails. In the archive above \<^verbatim>\<open>..\<close> is a directory of the index, with
  the child \<^verbatim>\<open>x\<close>, and \<^verbatim>\<open>ReadDir("..")\<close> does not return its children: it fails with
  \<^verbatim>\<open>fs.ErrInvalid\<close>. And \<^verbatim>\<open>/x\<close>, which is not an indexed directory, fails with
  \<^verbatim>\<open>fs.ErrInvalid\<close>, not with \<^verbatim>\<open>fs.ErrNotExist\<close>.
\<close>

theorem ReadDir_indexed_invalid_counterexample:
  "isl (NewZipFS 0 [example_record ''../x'']) = False
   \<and> dirs escaping_fs ''..'' = Some 1
   \<and> map (DirEntry_Name escaping_fs) (di_entries (objs escaping_fs ! 1)) = [''x'']
   \<and> ZipFS_ReadDir escaping_fs ''..'' = Inl (PathError ''readdir'' ''..'' ErrInvalid)
   \<and> dirs escaping_fs ''/x'' = None
   \<and> ZipFS_ReadDir escaping_fs ''/x'' = Inl (PathError ''readdir'' ''/x'' ErrInvalid)"
proof -
  have 1: "isl (NewZipFS 0 [example_record ''../x'']) = False" by code_simp
  have 2: "dirs escaping_fs ''..'' = Some 1" by code_simp
  have 3: "map (DirEntry_Name escaping_fs) (di_entries (objs escaping_fs ! 1)) = [''x'']"
    by code_simp
  have 4: "ZipFS_ReadDir escaping_fs ''..'' = Inl (PathError ''readdir'' ''..'' ErrInvalid)"
    by code_simp
  have 5: "dirs escaping_fs ''/x'' = None" by code_simp
  have 6: "ZipFS_ReadDir escaping_fs ''/x'' = Inl (PathError ''readdir'' ''/x'' ErrInvalid)"
    by code_simp
  from 1 2 3 4 5 6 show ?thesis by simp
qed

text \<open>
  Claim C5, amended. For a path that \<^verbatim>\<open>fs.ValidPath\<close> accepts and that is an indexed
  directory, \<^verbatim>\<open>ReadDir\<close> of the filesystem returns a slice with a backing array of its own
  that holds the children of the live list, sorted by name; an assignment to the returned
  slice leaves the filesystem as it is, and a second call after it returns the same listing,
  in the same order. For a path that \<^verbatim>\<open>fs.ValidPath\<close> accepts and that is not an indexed
  directory, \<^verbatim>\<open>ReadDir\<close> fails with \<^verbatim>\<open>fs.ErrNotExist\<close>. For a path that \<^verbatim>\<open>fs.ValidPath\<close>
  refuses, \<^verbatim>\<open>ReadDir\<close> fails with \<^verbatim>\<open>fs.ErrInvalid\<close>, whether the index has a directory under
  it or not.
\<close>

theorem ReadDir_sorted_copy:
  "(\<forall>name a. ValidPath name \<and> dirs z name = Some a \<longrightarrow>
      (\<exists>xs. ZipFS_ReadDir z name = Inr (Copy xs)
         \<and> sorted (map (DirEntry_Name z) xs)
         \<and> mset xs = mset (di_entries (objs z ! a))
         \<and> (\<forall>i v z' s'. slice_store z (Copy xs) i v = Inr (z', s') \<longrightarrow>
               z' = z \<and> ZipFS_ReadDir z' name = Inr (Copy xs))))
   \<and> (\<forall>name. ValidPath name \<and> dirs z name = None \<longrightarrow>
         ZipFS_ReadDir z name = Inl (PathError ''readdir'' name ErrNotExist))
   \<and> (\<forall>name. \<not> ValidPath name \<longrightarrow>
         ZipFS_ReadDir z name = Inl (PathError ''readdir'' name ErrInvalid))"
proof (intro conjI allI impI)
  fix name a
  assume h: "ValidPath name \<and> dirs z name = Some a"
  let ?xs = "SortFunc z (di_entries (objs z ! a))"
  have r: "ZipFS_ReadDir z name = Inr (Copy ?xs)"
    using h by (simp add: ZipFS_ReadDir_found)
  have "\<forall>i v z' s'. slice_store z (Copy ?xs) i v = Inr (z', s') \<longrightarrow>
      z' = z \<and> ZipFS_ReadDir z' name = Inr (Copy ?xs)"
    using r slice_store_Copy by blast
  with r SortFunc_sorted [of z] SortFunc_mset [of z]
  show "\<exists>xs. ZipFS_ReadDir z name = Inr (Copy xs)
         \<and> sorted (map (DirEntry_Name z) xs)
         \<and> mset xs = mset (di_entries (objs z ! a))
         \<and> (\<forall>i v z' s'. slice_store z (Copy xs) i v = Inr (z', s') \<longrightarrow>
               z' = z \<and> ZipFS_ReadDir z' name = Inr (Copy xs))"
    by blast
next
  fix name
  assume "ValidPath name \<and> dirs z name = None"
  then show "ZipFS_ReadDir z name = Inl (PathError ''readdir'' name ErrNotExist)"
    by (simp add: ZipFS_ReadDir_missing)
next
  fix name
  assume "\<not> ValidPath name"
  then show "ZipFS_ReadDir z name = Inl (PathError ''readdir'' name ErrInvalid)"
    by (simp add: ZipFS_ReadDir_def)
qed

text \<open>
  By contrast, an assignment to a window that a directory reader returned changes the child
  list of the index.
\<close>

lemma slice_store_Window_changes_index:
  "slice_store unsorted_fs (Window 0 0 2) 0 (dirEntry 0) = Inr (z', s') \<Longrightarrow>
   di_entries (objs z' ! 0) \<noteq> di_entries (objs unsorted_fs ! 0)"
proof -
  assume a: "slice_store unsorted_fs (Window 0 0 2) 0 (dirEntry 0) = Inr (z', s')"
  have o: "length (objs unsorted_fs) = 1" by code_simp
  from a have "objs z' = (objs unsorted_fs)[0 := (objs unsorted_fs ! 0)
      \<lparr>di_entries := (di_entries (objs unsorted_fs ! 0))[0 := dirEntry 0]\<rparr>]"
    by (auto simp: slice_store_def)
  then have "di_entries (objs z' ! 0) = (di_entries (objs unsorted_fs ! 0))[0 := dirEntry 0]"
    using o by simp
  then show ?thesis by (simp add: unsorted_fs_entries)
qed

text \<open>
  Witness for C5 amended: the root of the archive with the records \<^verbatim>\<open>b.txt\<close>, \<^verbatim>\<open>a.txt\<close>
  lists \<^verbatim>\<open>a.txt\<close>, \<^verbatim>\<open>b.txt\<close>; \<^verbatim>\<open>missing\<close> is not found; \<^verbatim>\<open>../x\<close> is invalid.
\<close>

theorem ReadDir_sorted_copy_witness:
  "ValidPath ''.'' \<and> dirs unsorted_fs ''.'' = Some 0
   \<and> ZipFS_ReadDir unsorted_fs ''.''
       = Inr (Copy [fileEntry (example_record ''a.txt''), fileEntry (example_record ''b.txt'')])
   \<and> sorted (map (DirEntry_Name unsorted_fs)
        [fileEntry (example_record ''a.txt''), fileEntry (example_record ''b.txt'')])
   \<and> (\<exists>s'. slice_store unsorted_fs
         (Copy [fileEntry (example_record ''a.txt''), fileEntry (example_record ''b.txt'')])
         0 (dirEntry 0) = Inr (unsorted_fs, s'))
   \<and> ValidPath ''missing'' \<and> dirs unsorted_fs ''missing'' = None
   \<and> ZipFS_ReadDir unsorted_fs ''missing'' = Inl (PathError ''readdir'' ''missing'' ErrNotExist)
   \<and> ZipFS_ReadDir unsorted_fs ''../x'' = Inl (PathError ''readdir'' ''../x'' ErrInvalid)"
proof -
  have i: "\<not> ValidPath ''../x''" by code_simp
  let ?xs = "[fileEntry (example_record ''a.txt''), fileEntry (example_record ''b.txt'')]"
  have v: "ValidPath ''.''" by code_simp
  have d: "dirs unsorted_fs ''.'' = Some 0" by code_simp
  have r: "ZipFS_ReadDir unsorted_fs ''.'' = Inr (Copy ?xs)" by code_simp
  have m: "ValidPath ''missing''" by code_simp
  have n: "dirs unsorted_fs ''missing'' = None" by code_simp
  note t = ReadDir_sorted_copy [of unsorted_fs]
  from t v d obtain xs where x: "ZipFS_ReadDir unsorted_fs ''.'' = Inr (Copy xs)"
    "sorted (map (DirEntry_Name unsorted_fs) xs)"
    by blast
  from x(1) r have "xs = ?xs" by simp
  with x(2) have s: "sorted (map (DirEntry_Name unsorted_fs) ?xs)" by simp
  have w: "\<exists>s'. slice_store unsorted_fs (Copy ?xs) 0 (dirEntry 0) = Inr (unsorted_fs, s')"
    by (simp add: slice_store_def)
  from t m n have e: "ZipFS_ReadDir unsorted_fs ''missing''
      = Inl (PathError ''readdir'' ''missing'' ErrNotExist)"
    by blast
  from t i have x: "ZipFS_ReadDir unsorted_fs ''../x''
      = Inl (PathError ''readdir'' ''../x'' ErrInvalid)"
    by blast
  from v d r s w m n e x show ?thesis by blast
qed

section \<open>Sub-tree views\<close>

text \<open>
  The archive of the specification's scenario, with the records \<^verbatim>\<open>dir/file.txt\<close> and
  \<^verbatim>\<open>dir/subdir/a.txt\<close>, as the only filesystem of a store; \<open>view_store\<close> is the store after
  \<^verbatim>\<open>Sub("dir")\<close>.
\<close>

definition tree_fs :: ZipFS where
  "tree_fs = projr (NewZipFS 0 [example_record ''dir/file.txt'', example_record ''dir/subdir/a.txt''])"

definition tree_store :: store where
  "tree_store = \<lparr>zipfs_objs = [tree_fs], subfs_objs = []\<rparr>"

definition view_store :: store where
  "view_store = fst (ZipFS_Sub tree_store 0 ''dir'')"

text \<open>
  A view as \<^verbatim>\<open>ZipFS.Sub\<close> makes them: its parent is a filesystem of the store and its prefix
  is a valid path, other than the root, of a directory of that parent.
\<close>

definition view_ok :: "store \<Rightarrow> nat \<Rightarrow> bool" where
  "view_ok st a =
     (a < length (subfs_objs st)
      \<and> sub_parent (subfs_objs st ! a) < length (zipfs_objs st)
      \<and> ValidPath (sub_prefix (subfs_objs st ! a))
      \<and> sub_prefix (subfs_objs st ! a) \<noteq> ''.''
      \<and> dirs (zipfs_objs st ! sub_parent (subfs_objs st ! a)) (sub_prefix (subfs_objs st ! a)) \<noteq> None)"

lemma ZipFS_Sub_dot: "ZipFS_Sub st zp ''.'' = (st, Inr (ZipFSPtr zp))"
proof -
  have "ValidPath ''.''" by code_simp
  then show ?thesis by (simp add: ZipFS_Sub_def)
qed

lemma ZipFS_Sub_new:
  assumes "ZipFS_Sub st zp d = (st1, Inr (subFSPtr a))"
  shows "ValidPath d" and "d \<noteq> ''.''" and "zp < length (zipfs_objs st)"
    and "dirs (zipfs_objs st ! zp) d \<noteq> None"
    and "a = length (subfs_objs st)"
    and "st1 = st\<lparr>subfs_objs := subfs_objs st @ [\<lparr>sub_parent = zp, sub_prefix = d\<rparr>]\<rparr>"
proof -
  from assms show v: "ValidPath d"
    by (auto simp: ZipFS_Sub_def split: if_splits)
  then have c: "Clean d = d" by (rule Clean_valid)
  from assms v c show "d \<noteq> ''.''" "zp < length (zipfs_objs st)"
    "dirs (zipfs_objs st ! zp) d \<noteq> None" "a = length (subfs_objs st)"
    "st1 = st\<lparr>subfs_objs := subfs_objs st @ [\<lparr>sub_parent = zp, sub_prefix = d\<rparr>]\<rparr>"
    by (auto simp: ZipFS_Sub_def Let_def split: if_splits)
qed

lemma ZipFS_Sub_existing:
  assumes "ValidPath d" and "d \<noteq> ''.''" and "zp < length (zipfs_objs st)"
    and "dirs (zipfs_objs st ! zp) d \<noteq> None"
  shows "ZipFS_Sub st zp d =
    (st\<lparr>subfs_objs := subfs_objs st @ [\<lparr>sub_parent = zp, sub_prefix = d\<rparr>]\<rparr>,
     Inr (subFSPtr (length (subfs_objs st))))"
  using assms by (simp add: ZipFS_Sub_def Clean_valid)

lemma ZipFS_Sub_view_ok:
  assumes "ZipFS_Sub st zp d = (st1, Inr (subFSPtr a))"
  shows "view_ok st1 a"
  using ZipFS_Sub_new [OF assms] by (simp add: view_ok_def)

lemma FS_Sub_view_ok:
  assumes "FS_Sub st v d = (st1, Inr (subFSPtr a))"
  shows "view_ok st1 a"
proof (cases v)
  case (ZipFSPtr zp)
  with assms show ?thesis by (simp add: FS_Sub_def ZipFS_Sub_view_ok)
next
  case (subFSPtr sp)
  with assms have "ZipFS_Sub st (sub_parent (subfs_objs st ! sp)) (Join [sub_prefix (subfs_objs st ! sp), d])
      = (st1, Inr (subFSPtr a))"
    by (auto simp: FS_Sub_def subFS_Sub_def Let_def split: if_splits prod.splits sum.splits)
  then show ?thesis by (rule ZipFS_Sub_view_ok)
qed

lemma ZipFS_Sub_store:
  "ZipFS_Sub st zp d = (st1, r) \<Longrightarrow>
   zipfs_objs st1 = zipfs_objs st \<and> (\<exists>more. subfs_objs st1 = subfs_objs st @ more)"
  by (auto simp: ZipFS_Sub_def Let_def split: if_splits)

lemma FS_Sub_store:
  assumes "FS_Sub st v d = (st1, r)"
  shows "zipfs_objs st1 = zipfs_objs st \<and> (\<exists>more. subfs_objs st1 = subfs_objs st @ more)"
proof (cases v)
  case (ZipFSPtr zp)
  with assms show ?thesis by (simp add: FS_Sub_def ZipFS_Sub_store)
next
  case (subFSPtr sp)
  show ?thesis
  proof (cases "\<not> ValidPath d \<or> sp \<ge> length (subfs_objs st)")
    case True
    with assms subFSPtr show ?thesis by (auto simp: FS_Sub_def subFS_Sub_def split: if_splits)
  next
    case False
    obtain st' r' where z: "ZipFS_Sub st (sub_parent (subfs_objs st ! sp))
        (Join [sub_prefix (subfs_objs st ! sp), d]) = (st', r')"
      by (cases "ZipFS_Sub st (sub_parent (subfs_objs st ! sp))
        (Join [sub_prefix (subfs_objs st ! sp), d])") auto
    with assms subFSPtr False have "st1 = st'"
      by (auto simp: FS_Sub_def subFS_Sub_def Let_def split: sum.splits)
    with ZipFS_Sub_store [OF z] show ?thesis by simp
  qed
qed

lemma view_ok_kept:
  assumes "view_ok st a" and "FS_Sub st v d = (st1, r)"
  shows "view_ok st1 a"
proof -
  from FS_Sub_store [OF assms(2)] obtain more where
    s: "zipfs_objs st1 = zipfs_objs st" "subfs_objs st1 = subfs_objs st @ more"
    by blast
  with assms(1) show ?thesis by (simp add: view_ok_def nth_append)
qed

lemma subFS_Sub_dot:
  assumes "view_ok st a"
  shows "subFS_Sub st a ''.'' =
    (st\<lparr>subfs_objs := subfs_objs st @ [subfs_objs st ! a]\<rparr>, Inr (subFSPtr (length (subfs_objs st))))"
proof -
  let ?s = "subfs_objs st ! a"
  have v: "ValidPath ''.''" by code_simp
  from assms have a: "a < length (subfs_objs st)" and p: "sub_parent ?s < length (zipfs_objs st)"
    and vp: "ValidPath (sub_prefix ?s)" and nd: "sub_prefix ?s \<noteq> ''.''"
    and d: "dirs (zipfs_objs st ! sub_parent ?s) (sub_prefix ?s) \<noteq> None"
    by (simp_all add: view_ok_def)
  from vp nd have "valid_elems (sub_prefix ?s)" using ValidPath_cases by blast
  then have j: "Join [sub_prefix ?s, ''.''] = sub_prefix ?s" by (rule Join_valid_dot)
  have e: "\<lparr>sub_parent = sub_parent ?s, sub_prefix = sub_prefix ?s\<rparr> = ?s" by simp
  show ?thesis
    using v a by (simp add: subFS_Sub_def j ZipFS_Sub_existing [OF vp nd p d] e)
qed

text \<open>
  Claim C3, as stated, fails for a sub-tree view. \<^verbatim>\<open>Sub("dir")\<close> on the root allocates the
  view at address 0; \<^verbatim>\<open>Sub(".")\<close> on that view forwards to the parent with the joined prefix
  \<^verbatim>\<open>dir\<close>, and the parent allocates a second view, at address 1, with the same fields.
\<close>

theorem Sub_dot_counterexample:
  "snd (FS_Sub tree_store (ZipFSPtr 0) ''dir'') = Inr (subFSPtr 0)
   \<and> subfs_objs view_store = [\<lparr>sub_parent = 0, sub_prefix = ''dir''\<rparr>]
   \<and> snd (FS_Sub view_store (subFSPtr 0) ''.'') = Inr (subFSPtr 1)
   \<and> subFSPtr 1 \<noteq> subFSPtr 0
   \<and> subfs_objs (fst (FS_Sub view_store (subFSPtr 0) ''.''))
       = [\<lparr>sub_parent = 0, sub_prefix = ''dir''\<rparr>, \<lparr>sub_parent = 0, sub_prefix = ''dir''\<rparr>]"
proof -
  have 1: "snd (FS_Sub tree_store (ZipFSPtr 0) ''dir'') = Inr (subFSPtr 0)" by code_simp
  have 2: "subfs_objs view_store = [\<lparr>sub_parent = 0, sub_prefix = ''dir''\<rparr>]" by code_simp
  have 3: "snd (FS_Sub view_store (subFSPtr 0) ''.'') = Inr (subFSPtr 1)" by code_simp
  have 4: "subfs_objs (fst (FS_Sub view_store (subFSPtr 0) ''.''))
       = [\<lparr>sub_parent = 0, sub_prefix = ''dir''\<rparr>, \<lparr>sub_parent = 0, sub_prefix = ''dir''\<rparr>]"
    by code_simp
  from 1 2 3 4 show ?thesis by simp
qed

text \<open>
  Claim C3, amended. \<^verbatim>\<open>Sub(".")\<close> on the root filesystem returns the pointer to the
  filesystem itself and allocates nothing. \<^verbatim>\<open>Sub(".")\<close> on a sub-tree view (any view that
  \<^verbatim>\<open>Sub\<close> returned, at any later state of the store) returns a newly allocated view with
  the parent and the prefix of the view it was called on: an equal view, not the same one.
\<close>

theorem Sub_dot:
  "FS_Sub st (ZipFSPtr zp) ''.'' = (st, Inr (ZipFSPtr zp))
   \<and> (\<forall>v d st1 a. FS_Sub st v d = (st1, Inr (subFSPtr a)) \<longrightarrow> view_ok st1 a)
   \<and> (\<forall>a v d st1 r. view_ok st a \<and> FS_Sub st v d = (st1, r) \<longrightarrow> view_ok st1 a)
   \<and> (\<forall>a. view_ok st a \<longrightarrow>
         FS_Sub st (subFSPtr a) ''.'' =
           (st\<lparr>subfs_objs := subfs_objs st @ [subfs_objs st ! a]\<rparr>,
            Inr (subFSPtr (length (subfs_objs st))))
         \<and> a \<noteq> length (subfs_objs st))"
proof (intro conjI allI impI)
  show "FS_Sub st (ZipFSPtr zp) ''.'' = (st, Inr (ZipFSPtr zp))"
    by (simp add: FS_Sub_def ZipFS_Sub_dot)
next
  fix v d st1 a
  assume "FS_Sub st v d = (st1, Inr (subFSPtr a))"
  then show "view_ok st1 a" by (rule FS_Sub_view_ok)
next
  fix a v d st1 r
  assume "view_ok st a \<and> FS_Sub st v d = (st1, r)"
  then show "view_ok st1 a" using view_ok_kept by blast
next
  fix a
  assume "view_ok st a"
  then show "FS_Sub st (subFSPtr a) ''.'' =
           (st\<lparr>subfs_objs := subfs_objs st @ [subfs_objs st ! a]\<rparr>,
            Inr (subFSPtr (length (subfs_objs st))))"
    by (simp add: FS_Sub_def subFS_Sub_dot)
next
  fix a
  assume "view_ok st a"
  then show "a \<noteq> length (subfs_objs st)" by (simp add: view_ok_def)
qed

lemma tree_store_Sub_dir:
  "FS_Sub tree_store (ZipFSPtr 0) ''dir'' = (view_store, Inr (subFSPtr 0))"
proof -
  have "snd (FS_Sub tree_store (ZipFSPtr 0) ''dir'') = Inr (subFSPtr 0)" by code_simp
  moreover have "fst (FS_Sub tree_store (ZipFSPtr 0) ''dir'') = view_store"
    by (simp add: FS_Sub_def view_store_def)
  ultimately show ?thesis by (simp add: prod_eq_iff)
qed

text \<open>Witness for C3 amended: the root and the view \<^verbatim>\<open>dir\<close> of the archive above.\<close>

theorem Sub_dot_witness:
  "FS_Sub tree_store (ZipFSPtr 0) ''.'' = (tree_store, Inr (ZipFSPtr 0))
   \<and> FS_Sub tree_store (ZipFSPtr 0) ''dir'' = (view_store, Inr (subFSPtr 0))
   \<and> view_ok view_store 0
   \<and> FS_Sub view_store (subFSPtr 0) ''.'' =
       (view_store\<lparr>subfs_objs := subfs_objs view_store @ [subfs_objs view_store ! 0]\<rparr>,
        Inr (subFSPtr 1))"
proof -
  have l: "length (subfs_objs view_store) = 1" by code_simp
  from Sub_dot [of tree_store 0]
  have a: "FS_Sub tree_store (ZipFSPtr 0) ''.'' = (tree_store, Inr (ZipFSPtr 0))"
    and "\<forall>v d st1 a. FS_Sub tree_store v d = (st1, Inr (subFSPtr a)) \<longrightarrow> view_ok st1 a"
    by blast+
  with tree_store_Sub_dir have ok: "view_ok view_store 0" by blast
  from Sub_dot [of view_store 0] ok
  have "FS_Sub view_store (subFSPtr 0) ''.'' =
       (view_store\<lparr>subfs_objs := subfs_objs view_store @ [subfs_objs view_store ! 0]\<rparr>,
        Inr (subFSPtr (length (subfs_objs view_store))))"
    by blast
  with l a ok tree_store_Sub_dir show ?thesis by simp
qed

text \<open>
  Two results of \<^verbatim>\<open>Open\<close> are the same outcome for the path \<open>rel\<close> when both are readers of
  the same record, or both directory readers on the same \<^verbatim>\<open>dirInfo\<close> with the same cursor,
  or both path errors of the same operation and kind, the first of them reporting \<open>rel\<close>.
\<close>

fun same_outcome :: "string \<Rightarrow> error + File \<Rightarrow> error + File \<Rightarrow> bool" where
  "same_outcome rel (Inr (FileReader f1)) (Inr (FileReader f2)) = (f1 = f2)"
| "same_outcome rel (Inr (DirReader d1)) (Inr (DirReader d2)) =
     (dr_info d1 = dr_info d2 \<and> dr_pos d1 = dr_pos d2)"
| "same_outcome rel (Inl (PathError op1 p1 e1)) (Inl (PathError op2 p2 e2)) =
     (op1 = op2 \<and> e1 = e2 \<and> p1 = rel)"
| "same_outcome rel r1 r2 = False"

lemma same_outcome_Open:
  "ValidPath rel \<Longrightarrow> same_outcome rel (ZipFS_Open z rel) (ZipFS_Open z rel)"
  by (simp add: ZipFS_Open_def Clean_valid split: option.split)

text \<open>
  Claim C4. For a filesystem \<open>F\<close> of the store, a directory \<open>D\<close> for which \<^verbatim>\<open>F.Sub(D)\<close>
  returns a view, and a valid path \<open>rel\<close>: \<^verbatim>\<open>Open(rel)\<close> on the view has the same outcome as
  \<^verbatim>\<open>F.Open(path.Join(D, rel))\<close>, and an error of the view reports the path \<open>rel\<close>.
\<close>

theorem Sub_Open_round_trip:
  assumes "zp < length (zipfs_objs st)"
    and "FS_Sub st (ZipFSPtr zp) D = (st1, Inr v)"
    and "ValidPath rel"
  shows "same_outcome rel (FS_Open st1 v rel) (FS_Open st1 (ZipFSPtr zp) (Join [D, rel]))"
proof -
  let ?z = "zipfs_objs st ! zp"
  from assms(2) have sub: "ZipFS_Sub st zp D = (st1, Inr v)" by (simp add: FS_Sub_def)
  then have vd: "ValidPath D" by (auto simp: ZipFS_Sub_def split: if_splits)
  then have cd: "Clean D = D" by (rule Clean_valid)
  show ?thesis
  proof (cases "D = ''.''")
    case True
    with sub have v: "v = ZipFSPtr zp" and st: "st1 = st" by (simp_all add: ZipFS_Sub_dot)
    have j: "Join [D, rel] = rel" using True assms(3) by (simp add: Join_dot_valid)
    show ?thesis
      using assms(1,3) by (simp add: v st j FS_Open_def same_outcome_Open)
  next
    case False
    from sub obtain a where va: "v = subFSPtr a"
      using False vd cd by (auto simp: ZipFS_Sub_def Let_def split: if_splits)
    from ZipFS_Sub_new [OF sub [unfolded va]]
    have d: "dirs ?z D \<noteq> None" and a: "a = length (subfs_objs st)"
      and st1: "st1 = st\<lparr>subfs_objs := subfs_objs st @ [\<lparr>sub_parent = zp, sub_prefix = D\<rparr>]\<rparr>"
      by simp_all
    from d obtain dir where dir: "dirs ?z D = Some dir" by auto
    have obj: "subfs_objs st1 ! a = \<lparr>sub_parent = zp, sub_prefix = D\<rparr>" "a < length (subfs_objs st1)"
      "zipfs_objs st1 = zipfs_objs st"
      by (simp_all add: st1 a)
    have subopen: "FS_Open st1 v rel =
        (case ZipFS_Open ?z (Join [D, rel]) of
           Inr f \<Rightarrow> Inr (rebaseAny \<lparr>sub_parent = zp, sub_prefix = D\<rparr> f)
         | Inl err \<Rightarrow> Inl (rebaseError \<lparr>sub_parent = zp, sub_prefix = D\<rparr> err))"
      using assms(1,3) obj by (simp add: va FS_Open_def subFS_Open_def Let_def)
    show ?thesis
    proof (cases "rel = ''.''")
      case True
      from False vd have "valid_elems D" using ValidPath_cases by blast
      then have j: "Join [D, rel] = D" using True by (simp add: Join_valid_dot)
      have o: "ZipFS_Open ?z D = Inr (DirReader \<lparr>dr_info = dir, dr_path = D, dr_pos = 0\<rparr>)"
        using vd cd dir by (simp add: ZipFS_Open_def)
      have root: "FS_Open st1 (ZipFSPtr zp) D = ZipFS_Open ?z D"
        using assms(1) vd obj(3) by (simp add: FS_Open_def)
      show ?thesis
        unfolding subopen j root o
        by (simp add: rebaseAny_def dirReader_rebase_def)
    next
      case rel: False
      note J = ValidPath_Join [OF vd False assms(3) rel]
      let ?J = "D @ sep # rel"
      have cj: "Clean ?J = ?J" using J(2) by (rule Clean_valid)
      have tp: "TrimPrefix ?J (D @ [sep]) = rel"
        using TrimPrefix_append [of "D @ [sep]" rel] by simp
      have root: "FS_Open st1 (ZipFSPtr zp) ?J = ZipFS_Open ?z ?J"
        using assms(1) J(2) obj(3) by (simp add: FS_Open_def)
      show ?thesis
        unfolding subopen J(1) root
        using J(2) cj tp
        by (simp add: ZipFS_Open_def Let_def rebaseAny_def rebaseError_def dirReader_rebase_def
            split: option.split)
    qed
  qed
qed

text \<open>
  Witness for C4: through the view \<^verbatim>\<open>dir\<close> of the archive above, a missing path and the
  file \<^verbatim>\<open>subdir/a.txt\<close>.
\<close>

theorem Sub_Open_round_trip_witness:
  "FS_Sub tree_store (ZipFSPtr 0) ''dir'' = (view_store, Inr (subFSPtr 0))
   \<and> ValidPath ''nope''
   \<and> FS_Open view_store (subFSPtr 0) ''nope'' = Inl (PathError ''open'' ''nope'' ErrNotExist)
   \<and> FS_Open view_store (ZipFSPtr 0) (Join [''dir'', ''nope''])
       = Inl (PathError ''open'' ''dir/nope'' ErrNotExist)
   \<and> same_outcome ''nope'' (FS_Open view_store (subFSPtr 0) ''nope'')
        (FS_Open view_store (ZipFSPtr 0) (Join [''dir'', ''nope'']))
   \<and> ValidPath ''subdir/a.txt''
   \<and> FS_Open view_store (subFSPtr 0) ''subdir/a.txt''
       = Inr (FileReader \<lparr>fr_file = example_record ''dir/subdir/a.txt'', fr_rc = None\<rparr>)
   \<and> same_outcome ''subdir/a.txt'' (FS_Open view_store (subFSPtr 0) ''subdir/a.txt'')
        (FS_Open view_store (ZipFSPtr 0) (Join [''dir'', ''subdir/a.txt'']))"
proof -
  have z: "0 < length (zipfs_objs tree_store)" by code_simp
  have v1: "ValidPath ''nope''" by code_simp
  have v2: "ValidPath ''subdir/a.txt''" by code_simp
  have o1: "FS_Open view_store (subFSPtr 0) ''nope'' = Inl (PathError ''open'' ''nope'' ErrNotExist)"
    by code_simp
  have o2: "FS_Open view_store (ZipFSPtr 0) (Join [''dir'', ''nope''])
       = Inl (PathError ''open'' ''dir/nope'' ErrNotExist)"
    by code_simp
  have o3: "FS_Open view_store (subFSPtr 0) ''subdir/a.txt''
       = Inr (FileReader \<lparr>fr_file = example_record ''dir/subdir/a.txt'', fr_rc = None\<rparr>)"
    by code_simp
  note a = Sub_Open_round_trip [OF z tree_store_Sub_dir v1]
  note b = Sub_Open_round_trip [OF z tree_store_Sub_dir v2]
  from tree_store_Sub_dir v1 v2 o1 o2 o3 a b show ?thesis by blast
qed

section \<open>Index construction never fails\<close>

text \<open>
  Cleaning keeps the first \<open>dotdot\<close> bytes of the buffer, so the cleaned form of an absolute
  path is absolute.
\<close>

lemma backtrack_ge: "dd \<le> w \<Longrightarrow> dd \<le> backtrack buf dd w"
  by (induction buf dd w rule: backtrack.induct) (subst backtrack.simps, auto)

lemma clean_loop_keeps:
  "dd \<le> length buf \<Longrightarrow> take dd (clean_loop rooted buf dd rest) = take dd buf"
proof (induction rooted buf dd rest rule: clean_loop.induct)
  case (1 rooted buf dotdot)
  then show ?case by simp
next
  case (2 rooted buf dotdot c rest)
  consider (a) "c = sep"
    | (b) "c \<noteq> sep" "c = dot \<and> (rest = [] \<or> hd rest = sep)"
    | (c) "c \<noteq> sep" "\<not> (c = dot \<and> (rest = [] \<or> hd rest = sep))"
          "c = dot \<and> hd rest = dot \<and> (tl rest = [] \<or> hd (tl rest) = sep)"
    | (d) "c \<noteq> sep" "\<not> (c = dot \<and> (rest = [] \<or> hd rest = sep))"
          "\<not> (c = dot \<and> hd rest = dot \<and> (tl rest = [] \<or> hd (tl rest) = sep))"
    by blast
  then show ?case
  proof cases
    case a
    with "2.IH"(1) "2.prems" show ?thesis by simp
  next
    case b
    with "2.IH"(2) "2.prems" show ?thesis by simp
  next
    case c
    show ?thesis
    proof (cases "length buf > dotdot")
      case True
      let ?w = "backtrack buf dotdot (length buf - 1)"
      have w: "dotdot \<le> ?w" using True by (intro backtrack_ge) simp
      have w2: "?w \<le> length buf" using backtrack_le [of buf dotdot "length buf - 1"] by simp
      have "take dotdot (clean_loop rooted (take ?w buf) dotdot (tl rest)) = take dotdot (take ?w buf)"
        using "2.IH"(3) [OF c(1) c(2) c(3) True] w w2 by simp
      also have "\<dots> = take dotdot buf" using w by (simp add: min_def)
      finally show ?thesis using c True by simp
    next
      case False
      show ?thesis
      proof (cases rooted)
        case True
        with False c "2.IH"(5) "2.prems" show ?thesis by simp
      next
        case nr: False
        let ?b = "(if length buf > 0 then buf @ [sep] else buf) @ [dot, dot]"
        have ih: "take (length ?b) (clean_loop rooted ?b (length ?b) (tl rest)) = take (length ?b) ?b"
          using "2.IH"(4) [OF c(1) c(2) c(3) False _ refl] nr by simp
        have le: "dotdot \<le> length ?b" using "2.prems" by auto
        have "take dotdot (clean_loop rooted ?b (length ?b) (tl rest))
            = take dotdot (take (length ?b) (clean_loop rooted ?b (length ?b) (tl rest)))"
          using le by (simp add: min_def)
        also have "\<dots> = take dotdot ?b" using ih by simp
        also have "\<dots> = take dotdot buf" using "2.prems" by auto
        finally show ?thesis using c False nr by (simp add: Let_def)
      qed
    qed
  next
    case d
    let ?b = "(if rooted \<and> length buf \<noteq> 1 \<or> \<not> rooted \<and> length buf \<noteq> 0 then buf @ [sep] else buf)"
    let ?b' = "?b @ c # takeWhile (\<lambda>c. c \<noteq> sep) rest"
    have "take dotdot (clean_loop rooted ?b' dotdot (dropWhile (\<lambda>c. c \<noteq> sep) rest)) = take dotdot ?b'"
      using "2.IH"(6) [OF d(1) d(2) d(3) refl] "2.prems" by simp
    also have "\<dots> = take dotdot buf" using "2.prems" by simp
    finally show ?thesis
      apply (subst clean_loop.simps(2))
      apply (subst if_not_P [OF d(1)])
      apply (subst if_not_P [OF d(2)])
      apply (subst if_not_P [OF d(3)])
      apply (simp only: Let_def)
      done
  qed
qed

lemma Clean_rooted:
  assumes "p \<noteq> []" and "hd p = sep"
  shows "\<exists>cs. Clean p = sep # cs"
proof -
  let ?r = "clean_loop True [sep] 1 (tl p)"
  have "take 1 ?r = take 1 [sep]" by (rule clean_loop_keeps) simp
  then obtain cs where "?r = sep # cs" by (cases ?r) auto
  then show ?thesis using assms by (simp add: Clean_def)
qed

text \<open>
  The records the specification calls malformed: an absolute path, or a directory record
  whose header declares a nonzero uncompressed size.
\<close>

definition dropped :: "zipfile \<Rightarrow> bool" where
  "dropped f =
     (Name f \<noteq> [] \<and> hd (Name f) = sep \<or> isDir f \<and> UncompressedSize64 f \<noteq> 0)"

lemma index_record_total: "\<exists>z'. index_record dirModTime z f = Inr z'"
proof -
  obtain c cs where "Clean (Name f) = c # cs"
    using Clean_not_Nil [of "Name f"] by (cases "Clean (Name f)") auto
  then show ?thesis by (simp add: index_record_def Let_def)
qed

lemma index_records_total: "\<exists>z'. index_records dirModTime z fs = Inr z'"
proof (induction fs arbitrary: z)
  case Nil
  then show ?case by simp
next
  case (Cons f fs)
  from index_record_total [of dirModTime z f] obtain z1 where "index_record dirModTime z f = Inr z1"
    by blast
  with Cons.IH [of z1] show ?case by simp
qed

lemma NewZipFS_total: "\<exists>z. NewZipFS now r = Inr z"
  by (simp add: NewZipFS_def buildIndex_def index_records_total)

lemma index_record_absolute:
  assumes "Name f \<noteq> []" and "hd (Name f) = sep"
  shows "index_record dirModTime z f = Inr z"
proof -
  from Clean_rooted [OF assms] obtain cs where "Clean (Name f) = sep # cs" by blast
  then show ?thesis by (simp add: index_record_def Let_def)
qed

lemma index_record_sized_directory:
  assumes "isDir f" and "UncompressedSize64 f \<noteq> 0"
  shows "index_record dirModTime z f = Inr z"
proof -
  obtain c cs where "Clean (Name f) = c # cs"
    using Clean_not_Nil [of "Name f"] by (cases "Clean (Name f)") auto
  then show ?thesis using assms by (simp add: index_record_def Let_def)
qed

lemma index_record_dropped: "dropped f \<Longrightarrow> index_record dirModTime z f = Inr z"
  using index_record_absolute index_record_sized_directory by (auto simp: dropped_def)

lemma index_records_append:
  "index_records dirModTime z (xs @ ys) =
     (case index_records dirModTime z xs of
        Inl e \<Rightarrow> Inl e
      | Inr z' \<Rightarrow> index_records dirModTime z' ys)"
  by (induction xs arbitrary: z) (auto split: sum.splits)

lemma index_records_dropped:
  assumes "dropped f"
  shows "index_records dirModTime z (xs @ f # ys) = index_records dirModTime z (xs @ ys)"
  by (simp add: index_records_append index_record_dropped [OF assms] split: sum.splits)

text \<open>The list \<open>reader\<close> of the filesystem is carried along and never read by the loop.\<close>

lemma walk_reader:
  "walk dirModTime (z\<lparr>reader := r\<rparr>) entry dir = (walk dirModTime z entry dir)\<lparr>reader := r\<rparr>"
proof (induction dirModTime z entry dir rule: walk.induct)
  case (1 dirModTime z entry dir)
  show ?case
  proof (cases "dirs z dir")
    case None
    let ?o = "objs z @ [\<lparr>di_name = Base dir, di_modTime = dirModTime, di_entries = [entry]\<rparr>]"
    let ?d = "(dirs z)(dir \<mapsto> length (objs z))"
    have sw: "z\<lparr>reader := r\<rparr>\<lparr>objs := ?o, dirs := ?d\<rparr> = z\<lparr>objs := ?o, dirs := ?d\<rparr>\<lparr>reader := r\<rparr>"
      by simp
    have "walk dirModTime (z\<lparr>reader := r\<rparr>) entry dir
        = walk dirModTime (z\<lparr>reader := r\<rparr>\<lparr>objs := ?o, dirs := ?d\<rparr>) (dirEntry (length (objs z))) (Dir dir)"
      using None by (subst walk.simps) (simp add: Let_def)
    also have "\<dots> = (walk dirModTime (z\<lparr>objs := ?o, dirs := ?d\<rparr>) (dirEntry (length (objs z))) (Dir dir))\<lparr>reader := r\<rparr>"
      unfolding sw using "1.IH" [OF None refl refl] by simp
    also have "walk dirModTime (z\<lparr>objs := ?o, dirs := ?d\<rparr>) (dirEntry (length (objs z))) (Dir dir)
        = walk dirModTime z entry dir"
      using None by (subst (2) walk.simps) (simp add: Let_def)
    finally show ?thesis .
  next
    case (Some parent)
    then show ?thesis
      by (subst walk.simps, subst (2) walk.simps) simp
  qed
qed

lemma index_record_reader:
  "index_record dirModTime (z\<lparr>reader := r\<rparr>) f =
     map_sum id (\<lambda>z'. z'\<lparr>reader := r\<rparr>) (index_record dirModTime z f)"
proof -
  have 1: "z\<lparr>reader := r, files := x\<rparr> = z\<lparr>files := x\<rparr>\<lparr>reader := r\<rparr>" for x
    by simp
  have 2: "z\<lparr>reader := r, objs := x, dirs := y\<rparr> = z\<lparr>objs := x, dirs := y\<rparr>\<lparr>reader := r\<rparr>" for x y
    by simp
  show ?thesis
    unfolding index_record_def Let_def
    by (simp only: 1 2 walk_reader) (simp split: list.split)
qed

lemma index_records_reader:
  "index_records dirModTime (z\<lparr>reader := r\<rparr>) fs =
     map_sum id (\<lambda>z'. z'\<lparr>reader := r\<rparr>) (index_records dirModTime z fs)"
proof (induction fs arbitrary: z)
  case Nil
  then show ?case by simp
next
  case (Cons f fs)
  then show ?case
    by (cases "index_record dirModTime z f") (simp_all add: index_record_reader)
qed

lemma NewZipFS_reader:
  "NewZipFS now r = map_sum id (\<lambda>z. z\<lparr>reader := r\<rparr>) (index_records now
     \<lparr>reader = [], files = Map.empty, dirs = [''.'' \<mapsto> 0],
      objs = [\<lparr>di_name = ''.'', di_modTime = now, di_entries = []\<rparr>]\<rparr> r)"
  using index_records_reader [where dirModTime = now and r = r and fs = r and
      z = "\<lparr>reader = [], files = Map.empty, dirs = [''.'' \<mapsto> 0],
      objs = [\<lparr>di_name = ''.'', di_modTime = now, di_entries = []\<rparr>]\<rparr>"]
  by (simp add: NewZipFS_def buildIndex_def)

lemma NewZipFS_dropped:
  assumes "dropped f"
  shows "\<exists>z z'. NewZipFS now (xs @ f # ys) = Inr z \<and> NewZipFS now (xs @ ys) = Inr z'
    \<and> files z = files z' \<and> dirs z = dirs z' \<and> objs z = objs z'"
proof -
  let ?z0 = "\<lparr>reader = [], files = Map.empty, dirs = [''.'' \<mapsto> 0],
      objs = [\<lparr>di_name = ''.'', di_modTime = now, di_entries = []\<rparr>]\<rparr>"
  obtain z1 where z1: "index_records now ?z0 (xs @ ys) = Inr z1"
    using index_records_total by blast
  then have "index_records now ?z0 (xs @ f # ys) = Inr z1"
    using index_records_dropped [OF assms] by simp
  with z1 show ?thesis by (simp add: NewZipFS_reader)
qed

text \<open>
  Claim C8. For every list of records \<^verbatim>\<open>NewZipFS\<close> returns a filesystem (the loops of
  \<^verbatim>\<open>buildIndex\<close> end and nothing panics); a record with an absolute path and a directory
  record of nonzero declared size leave the index as it is; and a list with such a record
  gives the same maps and the same objects as the list without it, so the records before
  and after it are indexed all the same.
\<close>

theorem index_construction_total:
  "(\<exists>z. NewZipFS now r = Inr z)
   \<and> (\<forall>z f. Name f \<noteq> [] \<and> hd (Name f) = sep \<longrightarrow> index_record now z f = Inr z)
   \<and> (\<forall>z f. isDir f \<and> UncompressedSize64 f \<noteq> 0 \<longrightarrow> index_record now z f = Inr z)
   \<and> (\<forall>z f xs ys. dropped f \<longrightarrow>
         index_records now z (xs @ f # ys) = index_records now z (xs @ ys))
   \<and> (\<forall>f xs ys. dropped f \<longrightarrow>
         (\<exists>z z'. NewZipFS now (xs @ f # ys) = Inr z \<and> NewZipFS now (xs @ ys) = Inr z'
            \<and> files z = files z' \<and> dirs z = dirs z' \<and> objs z = objs z'))"
  using NewZipFS_total index_record_absolute index_record_sized_directory
    index_records_dropped NewZipFS_dropped
  by blast

definition sized_directory :: zipfile where
  "sized_directory = \<lparr>Name = ''d/'', UncompressedSize64 = 5, Mode = 493, ModTime = 0\<rparr>"

text \<open>
  Witness for C8: the absolute record \<^verbatim>\<open>/abs.txt\<close> between two files, and a directory record
  of declared size 5.
\<close>

theorem index_construction_total_witness:
  "dropped (example_record ''/abs.txt'')
   \<and> isDir sized_directory \<and> UncompressedSize64 sized_directory \<noteq> 0
   \<and> index_record 0 unsorted_fs sized_directory = Inr unsorted_fs
   \<and> (\<exists>z z'. NewZipFS 0 ([example_record ''b.txt''] @ example_record ''/abs.txt''
                    # [example_record ''a.txt'']) = Inr z
         \<and> NewZipFS 0 ([example_record ''b.txt''] @ [example_record ''a.txt'']) = Inr z'
         \<and> files z = files z' \<and> dirs z = dirs z' \<and> objs z = objs z')"
proof -
  have d: "dropped (example_record ''/abs.txt'')" by code_simp
  have s: "isDir sized_directory \<and> UncompressedSize64 sized_directory \<noteq> 0" by code_simp
  note t = index_construction_total [of 0 "[]"]
  from t s have a: "index_record 0 unsorted_fs sized_directory = Inr unsorted_fs"
    by blast
  from t d have b: "\<exists>z z'. NewZipFS 0 ([example_record ''b.txt''] @ example_record ''/abs.txt''
                    # [example_record ''a.txt'']) = Inr z
         \<and> NewZipFS 0 ([example_record ''b.txt''] @ [example_record ''a.txt'']) = Inr z'
         \<and> files z = files z' \<and> dirs z = dirs z' \<and> objs z = objs z'"
    by blast
  from d s a b show ?thesis by blast
qed

section \<open>Closing readers\<close>

text \<open>
  A stream of the two bytes \<^verbatim>\<open>hi\<close> for every record, a stream \<^verbatim>\<open>Close\<close> that returns nil, and
  the reader that \<^verbatim>\<open>Open("dir/file.txt")\<close> returns on the archive of the scenario.
\<close>

definition hi_stream :: "zipfile \<Rightarrow> error + string" where
  "hi_stream f = Inr ''hi''"

definition nil_close :: "string \<Rightarrow> error option" where
  "nil_close rest = None"

definition hi_reader :: fileReader where
  "hi_reader = \<lparr>fr_file = example_record ''dir/file.txt'', fr_rc = None\<rparr>"

text \<open>
  Claim C10, as stated, sets the directory reader against the file reader, which would
  have to be reopened after \<^verbatim>\<open>Close\<close>. It does not: \<^verbatim>\<open>fileReader.Close\<close> sets \<^verbatim>\<open>f.rc\<close> to nil,
  and the next \<^verbatim>\<open>Read\<close> finds it nil and opens the stream again. The reader below is read
  to the end, closed, and read again without a new \<^verbatim>\<open>Open\<close> on the filesystem: it returns the
  bytes of the file from the first one.
\<close>

theorem closed_fileReader_reads_again_counterexample:
  "ZipFS_Open tree_fs ''dir/file.txt'' = Inr (FileReader hi_reader)
   \<and> fileReader_Read hi_stream hi_reader 2 = (hi_reader\<lparr>fr_rc := Some []\<rparr>, Inr ''hi'')
   \<and> fileReader_Read hi_stream (hi_reader\<lparr>fr_rc := Some []\<rparr>) 2
       = (hi_reader\<lparr>fr_rc := Some []\<rparr>, Inl EOF)
   \<and> fileReader_Close nil_close (hi_reader\<lparr>fr_rc := Some []\<rparr>) = (hi_reader, None)
   \<and> fileReader_Read hi_stream (fst (fileReader_Close nil_close (hi_reader\<lparr>fr_rc := Some []\<rparr>))) 2
       = (hi_reader\<lparr>fr_rc := Some []\<rparr>, Inr ''hi'')"
proof -
  have 1: "ZipFS_Open tree_fs ''dir/file.txt'' = Inr (FileReader hi_reader)" by code_simp
  have 2: "fileReader_Read hi_stream hi_reader 2 = (hi_reader\<lparr>fr_rc := Some []\<rparr>, Inr ''hi'')"
    by code_simp
  have 3: "fileReader_Read hi_stream (hi_reader\<lparr>fr_rc := Some []\<rparr>) 2
       = (hi_reader\<lparr>fr_rc := Some []\<rparr>, Inl EOF)"
    by code_simp
  have 4: "fileReader_Close nil_close (hi_reader\<lparr>fr_rc := Some []\<rparr>) = (hi_reader, None)"
    by code_simp
  have 5: "fileReader_Read hi_stream (fst (fileReader_Close nil_close (hi_reader\<lparr>fr_rc := Some []\<rparr>))) 2
       = (hi_reader\<lparr>fr_rc := Some []\<rparr>, Inr ''hi'')"
    by code_simp
  from 1 2 3 4 5 show ?thesis by simp
qed

lemma fileReader_Close_result:
  "fileReader_Close close_stream f =
     (f\<lparr>fr_rc := None\<rparr>, case fr_rc f of None \<Rightarrow> None | Some rest \<Rightarrow> close_stream rest)"
  by (cases "fr_rc f") (simp_all add: fileReader_Close_def)

lemma fileReader_Close_twice:
  "snd (fileReader_Close close_stream (fst (fileReader_Close close_stream f))) = None"
  by (simp add: fileReader_Close_result)

lemma fileReader_Read_after_Close:
  "fileReader_Read open_stream (fst (fileReader_Close close_stream f)) k =
     (case open_stream (fr_file f) of
        Inl err \<Rightarrow> (f\<lparr>fr_rc := None\<rparr>, Inl err)
      | Inr bytes \<Rightarrow>
          (f\<lparr>fr_rc := Some (fst (stream_Read bytes k))\<rparr>, snd (stream_Read bytes k)))"
  by (simp add: fileReader_Close_result fileReader_Read_def split: sum.split)

lemma fileReader_Read_after_Close_first:
  "open_stream (fr_file f) = Inr bytes \<and> bytes \<noteq> [] \<Longrightarrow>
   snd (fileReader_Read open_stream (fst (fileReader_Close close_stream f)) k) = Inr (take k bytes)"
  by (simp add: fileReader_Read_after_Close stream_Read_def)

text \<open>
  Claim C10, amended. Closing a directory reader always succeeds (no error, also when
  repeated) and sets its cursor to the first entry, so a \<^verbatim>\<open>ReadDir\<close> after \<^verbatim>\<open>Close\<close>
  enumerates the directory again from the beginning. A closed file reader need not be
  reopened either: \<^verbatim>\<open>Close\<close> drops its stream (returning the error of the stream's own
  \<^verbatim>\<open>Close\<close>, and nil when repeated), and the next \<^verbatim>\<open>Read\<close> opens the stream again and reads
  the file from its first byte.
\<close>

theorem Close_restarts_readers:
  "(snd (dirReader_Close d) = None
   \<and> snd (dirReader_Close (fst (dirReader_Close d))) = None
   \<and> fst (dirReader_Close d) = d\<lparr>dr_pos := 0\<rparr>
   \<and> fst (dirReader_Close (fst (dirReader_Close d))) = fst (dirReader_Close d)
   \<and> (\<forall>name d0 p. ZipFS_Open z name = Inr (DirReader d0) \<longrightarrow>
         fst (dirReader_Close (d0\<lparr>dr_pos := p\<rparr>)) = d0)
   \<and> dirReader_ReadDir z (fst (dirReader_Close d)) n =
       (if sint n \<le> 0 then
          (d\<lparr>dr_pos := length (di_entries (objs z ! dr_info d))\<rparr>,
           Inr (Window (dr_info d) 0 (length (di_entries (objs z ! dr_info d)))))
        else if di_entries (objs z ! dr_info d) = [] then (d\<lparr>dr_pos := 0\<rparr>, Inl EOF)
        else
          (d\<lparr>dr_pos := min (nat (sint n)) (length (di_entries (objs z ! dr_info d)))\<rparr>,
           Inr (Window (dr_info d) 0
                 (min (nat (sint n)) (length (di_entries (objs z ! dr_info d)))))))
   \<and> slice_entries z (Window (dr_info d) 0 (length (di_entries (objs z ! dr_info d))))
       = di_entries (objs z ! dr_info d)
   \<and> slice_entries z (Window (dr_info d) 0
         (min (nat (sint n)) (length (di_entries (objs z ! dr_info d)))))
       = take (nat (sint n)) (di_entries (objs z ! dr_info d)))
   \<and> (fileReader_Close close_stream f =
         (f\<lparr>fr_rc := None\<rparr>, case fr_rc f of None \<Rightarrow> None | Some rest \<Rightarrow> close_stream rest)
       \<and> snd (fileReader_Close close_stream (fst (fileReader_Close close_stream f))) = None
       \<and> fileReader_Read open_stream (fst (fileReader_Close close_stream f)) k =
           (case open_stream (fr_file f) of
              Inl err \<Rightarrow> (f\<lparr>fr_rc := None\<rparr>, Inl err)
            | Inr bytes \<Rightarrow>
                (f\<lparr>fr_rc := Some (fst (stream_Read bytes k))\<rparr>, snd (stream_Read bytes k)))
       \<and> (\<forall>bytes. open_stream (fr_file f) = Inr bytes \<and> bytes \<noteq> [] \<longrightarrow>
             snd (fileReader_Read open_stream (fst (fileReader_Close close_stream f)) k)
               = Inr (take k bytes)))"
proof (rule conjI)
  show "snd (dirReader_Close d) = None
   \<and> snd (dirReader_Close (fst (dirReader_Close d))) = None
   \<and> fst (dirReader_Close d) = d\<lparr>dr_pos := 0\<rparr>
   \<and> fst (dirReader_Close (fst (dirReader_Close d))) = fst (dirReader_Close d)
   \<and> (\<forall>name d0 p. ZipFS_Open z name = Inr (DirReader d0) \<longrightarrow>
         fst (dirReader_Close (d0\<lparr>dr_pos := p\<rparr>)) = d0)
   \<and> dirReader_ReadDir z (fst (dirReader_Close d)) n =
       (if sint n \<le> 0 then
          (d\<lparr>dr_pos := length (di_entries (objs z ! dr_info d))\<rparr>,
           Inr (Window (dr_info d) 0 (length (di_entries (objs z ! dr_info d)))))
        else if di_entries (objs z ! dr_info d) = [] then (d\<lparr>dr_pos := 0\<rparr>, Inl EOF)
        else
          (d\<lparr>dr_pos := min (nat (sint n)) (length (di_entries (objs z ! dr_info d)))\<rparr>,
           Inr (Window (dr_info d) 0
                 (min (nat (sint n)) (length (di_entries (objs z ! dr_info d)))))))
   \<and> slice_entries z (Window (dr_info d) 0 (length (di_entries (objs z ! dr_info d))))
       = di_entries (objs z ! dr_info d)
   \<and> slice_entries z (Window (dr_info d) 0
         (min (nat (sint n)) (length (di_entries (objs z ! dr_info d)))))
       = take (nat (sint n)) (di_entries (objs z ! dr_info d))"
    by (rule dirReader_Close_rewinds)
next
  show "fileReader_Close close_stream f =
         (f\<lparr>fr_rc := None\<rparr>, case fr_rc f of None \<Rightarrow> None | Some rest \<Rightarrow> close_stream rest)
       \<and> snd (fileReader_Close close_stream (fst (fileReader_Close close_stream f))) = None
       \<and> fileReader_Read open_stream (fst (fileReader_Close close_stream f)) k =
           (case open_stream (fr_file f) of
              Inl err \<Rightarrow> (f\<lparr>fr_rc := None\<rparr>, Inl err)
            | Inr bytes \<Rightarrow>
                (f\<lparr>fr_rc := Some (fst (stream_Read bytes k))\<rparr>, snd (stream_Read bytes k)))
       \<and> (\<forall>bytes. open_stream (fr_file f) = Inr bytes \<and> bytes \<noteq> [] \<longrightarrow>
             snd (fileReader_Read open_stream (fst (fileReader_Close close_stream f)) k)
               = Inr (take k bytes))"
    using fileReader_Close_result [of close_stream f] fileReader_Close_twice [of close_stream f]
      fileReader_Read_after_Close [of open_stream close_stream f k]
      fileReader_Read_after_Close_first [of open_stream f _ close_stream k]
    by blast
qed

text \<open>
  Witness for C10 amended: the root reader of the archive \<^verbatim>\<open>b.txt\<close>, \<^verbatim>\<open>a.txt\<close> with its
  cursor at the end, and the file reader above at the end of its stream, are closed and
  read again.
\<close>

theorem Close_restarts_readers_witness:
  "ZipFS_Open unsorted_fs ''.'' = Inr (DirReader root_reader)
   \<and> fst (dirReader_Close (root_reader\<lparr>dr_pos := 2\<rparr>)) = root_reader
   \<and> snd (dirReader_Close (root_reader\<lparr>dr_pos := 2\<rparr>)) = None
   \<and> hi_stream (fr_file (hi_reader\<lparr>fr_rc := Some []\<rparr>)) = Inr ''hi''
   \<and> snd (fileReader_Read hi_stream
         (fst (fileReader_Close nil_close (hi_reader\<lparr>fr_rc := Some []\<rparr>))) 2) = Inr ''hi''"
proof -
  have o: "ZipFS_Open unsorted_fs ''.'' = Inr (DirReader root_reader)"
    by (rule unsorted_fs_Open)
  have h: "hi_stream (fr_file (hi_reader\<lparr>fr_rc := Some []\<rparr>)) = Inr ''hi''"
    by (simp add: hi_stream_def)
  note t = Close_restarts_readers [of "root_reader\<lparr>dr_pos := 2\<rparr>" unsorted_fs 1
      nil_close "hi_reader\<lparr>fr_rc := Some []\<rparr>" hi_stream 2]
  from t o have a: "fst (dirReader_Close (root_reader\<lparr>dr_pos := 2\<rparr>)) = root_reader"
    by blast
  from t have b: "snd (dirReader_Close (root_reader\<lparr>dr_pos := 2\<rparr>)) = None"
    by blast
  from t h have "snd (fileReader_Read hi_stream
         (fst (fileReader_Close nil_close (hi_reader\<lparr>fr_rc := Some []\<rparr>))) 2) = Inr (take 2 ''hi'')"
    by blast
  then have c: "snd (fileReader_Read hi_stream
         (fst (fileReader_Close nil_close (hi_reader\<lparr>fr_rc := Some []\<rparr>))) 2) = Inr ''hi''"
    by simp
  from o a b h c show ?thesis by blast
qed

section \<open>Parents of valid paths\<close>

text \<open>
  For a valid path \<open>p\<close>, \<^verbatim>\<open>path.Dir\<close> is the path of its parent directory (the root for a
  single element), \<^verbatim>\<open>path.Base\<close> is its last element, and the two give \<open>p\<close> back.
\<close>

lemma split_sep_append: "split_sep (a @ sep # b) = split_sep a @ split_sep b"
proof (induction a rule: split_sep.induct)
  case (1 p)
  let ?e = "takeWhile (\<lambda>c. c \<noteq> sep) p"
  let ?r = "dropWhile (\<lambda>c. c \<noteq> sep) p"
  show ?case
  proof (cases "?r = []")
    case True
    then have all: "\<And>x. x \<in> set p \<Longrightarrow> x \<noteq> sep" by (simp add: dropWhile_eq_Nil_conv)
    have tw: "takeWhile (\<lambda>c. c \<noteq> sep) (p @ sep # b) = p"
      by (simp add: takeWhile_append2 [OF all])
    have dw: "dropWhile (\<lambda>c. c \<noteq> sep) (p @ sep # b) = sep # b"
      by (simp add: dropWhile_append2 [OF all])
    have e: "?e = p" using all by (simp add: takeWhile_eq_all_conv)
    have "split_sep (p @ sep # b) = p # split_sep b"
      using split_sep_more [of "p @ sep # b"] by (simp add: tw dw)
    moreover have "split_sep p = [p]" using split_sep_last [OF True] e by simp
    ultimately show ?thesis by simp
  next
    case False
    then have ex: "\<exists>x \<in> set p. \<not> x \<noteq> sep"
      by (simp add: dropWhile_eq_Nil_conv)
    have tw: "takeWhile (\<lambda>c. c \<noteq> sep) (p @ sep # b) = ?e"
      using ex by (simp add: takeWhile_append1)
    have dw: "dropWhile (\<lambda>c. c \<noteq> sep) (p @ sep # b) = ?r @ sep # b"
      using ex by (simp add: dropWhile_append1)
    have t: "tl (?r @ sep # b) = tl ?r @ sep # b" using False by simp
    have "split_sep (p @ sep # b) = ?e # split_sep (tl ?r @ sep # b)"
      using split_sep_more [of "p @ sep # b"] False by (simp add: tw dw t)
    also have "\<dots> = ?e # (split_sep (tl ?r) @ split_sep b)"
      using "1.IH" [OF refl refl False] by simp
    also have "\<dots> = split_sep p @ split_sep b"
      using split_sep_more [OF False] by simp
    finally show ?thesis .
  qed
qed




lemma split_sep_no_sep: "sep \<notin> set n \<Longrightarrow> split_sep n = [n]"
proof -
  assume "sep \<notin> set n"
  then have a: "\<forall>x\<in>set n. x \<noteq> sep" by auto
  then have "dropWhile (\<lambda>c. c \<noteq> sep) n = []" by (simp add: dropWhile_eq_Nil_conv)
  from split_sep_last [OF this] show ?thesis using a by (simp add: takeWhile_eq_all_conv)
qed





lemma valid_elems_dot [simp]: "\<not> valid_elems ''.''"
  by (subst valid_elems_unfold) simp

lemma valid_elems_last: "valid_elems p \<Longrightarrow> last p \<noteq> sep"
proof -
  assume v: "valid_elems p"
  then have ne: "p \<noteq> []" by (rule valid_elems_not_Nil)
  show ?thesis
  proof
    assume "last p = sep"
    with ne have "p = butlast p @ sep # []" by (metis append_butlast_last_id)
    then have "split_sep p = split_sep (butlast p) @ split_sep []"
      by (metis split_sep_append)
    moreover have "split_sep [] = [[]]" by (subst split_sep.simps) simp
    ultimately have "[] \<in> set (split_sep p)" by simp
    with valid_elems_segments [OF v] show False by blast
  qed
qed







section \<open>Names in a directory\<close>

subsection \<open>The steps of the parent walk\<close>

text \<open>
  The children stored for a path, their names, and the paths that \<^verbatim>\<open>z.dirs\<close> or
  \<^verbatim>\<open>z.files\<close> holds. An entry is in order when the \<^verbatim>\<open>dirInfo\<close> it points to exists.
\<close>

definition entries_of :: "ZipFS \<Rightarrow> string \<Rightarrow> DirEntry list" where
  "entries_of z p = (case dirs z p of Some a \<Rightarrow> di_entries (objs z ! a) | None \<Rightarrow> [])"

definition names_of :: "ZipFS \<Rightarrow> string \<Rightarrow> string list" where
  "names_of z p = map (DirEntry_Name z) (entries_of z p)"

definition indexed :: "ZipFS \<Rightarrow> string \<Rightarrow> bool" where
  "indexed z p = (dirs z p \<noteq> None \<or> files z p \<noteq> None)"

definition entry_ok :: "ZipFS \<Rightarrow> DirEntry \<Rightarrow> bool" where
  "entry_ok z e = (case e of dirEntry b \<Rightarrow> b < length (objs z) | fileEntry f \<Rightarrow> True)"

text \<open>
  The shape of an index under construction: the root is a directory; every directory key
  is \<^verbatim>\<open>.\<close> or a path of proper elements, and points to an existing \<^verbatim>\<open>dirInfo\<close> whose
  entries are in order; no two keys share a \<^verbatim>\<open>dirInfo\<close>.
\<close>

definition struct_inv :: "ZipFS \<Rightarrow> bool" where
  "struct_inv z =
     (dirs z ''.'' \<noteq> None
      \<and> (\<forall>p a. dirs z p = Some a \<longrightarrow>
            a < length (objs z) \<and> (p = ''.'' \<or> valid_elems p)
            \<and> (\<forall>e \<in> set (di_entries (objs z ! a)). entry_ok z e))
      \<and> (\<forall>p q a. dirs z p = Some a \<and> dirs z q = Some a \<longrightarrow> p = q))"

text \<open>
  The two assignments of the loop over the parents in \<^verbatim>\<open>buildIndex\<close>:
  \<^verbatim>\<open>parent.entries = append(parent.entries, entry)\<close>, and the allocation of a new
  \<^verbatim>\<open>dirInfo\<close> stored under \<^verbatim>\<open>z.dirs[dir]\<close>.
\<close>

definition add_entry :: "ZipFS \<Rightarrow> nat \<Rightarrow> DirEntry \<Rightarrow> ZipFS" where
  "add_entry z a e =
     z\<lparr>objs := (objs z)[a := (objs z ! a)\<lparr>di_entries := di_entries (objs z ! a) @ [e]\<rparr>]\<rparr>"

definition add_dir :: "ZipFS \<Rightarrow> string \<Rightarrow> string \<Rightarrow> int \<Rightarrow> DirEntry list \<Rightarrow> ZipFS" where
  "add_dir z d nm t es =
     z\<lparr>objs := objs z @ [\<lparr>di_name = nm, di_modTime = t, di_entries = es\<rparr>],
       dirs := (dirs z)(d \<mapsto> length (objs z))\<rparr>"



lemma add_entry_fields [simp]:
  "dirs (add_entry z a e) = dirs z" "files (add_entry z a e) = files z"
  "length (objs (add_entry z a e)) = length (objs z)"
  by (simp_all add: add_entry_def)

lemma add_dir_fields [simp]:
  "dirs (add_dir z d nm t es) = (dirs z)(d \<mapsto> length (objs z))"
  "files (add_dir z d nm t es) = files z"
  "length (objs (add_dir z d nm t es)) = Suc (length (objs z))"
  by (simp_all add: add_dir_def)

lemma add_entry_name [simp]: "DirEntry_Name (add_entry z a e) x = DirEntry_Name z x"
proof (cases x)
  case (fileEntry f)
  then show ?thesis by (simp add: DirEntry_Name_def)
next
  case (dirEntry b)
  have "di_name (objs (add_entry z a e) ! b) = di_name (objs z ! b)"
    by (cases "b = a"; cases "a < length (objs z)") (simp_all add: add_entry_def list_update_beyond)
  with dirEntry show ?thesis by (simp add: DirEntry_Name_def)
qed


lemma add_dir_name_new [simp]:
  "DirEntry_Name (add_dir z d nm t es) (dirEntry (length (objs z))) = nm"
  by (simp add: DirEntry_Name_def add_dir_def)

lemma add_entry_entry_ok [simp]: "entry_ok (add_entry z a e) x = entry_ok z x"
  by (cases x) (simp_all add: entry_ok_def)









subsection \<open>Distinct names are kept by the walk\<close>






lemma add_entry_indexed [simp]: "indexed (add_entry z a e) q = indexed z q"
  by (simp add: indexed_def)



subsection \<open>Archives without colliding records\<close>














lemma entry_ok_files [simp]: "entry_ok (z\<lparr>files := m\<rparr>) = entry_ok z"
  by (rule ext) (simp add: entry_ok_def split: DirEntry.split)

lemma DirEntry_Name_files [simp]: "DirEntry_Name (z\<lparr>files := m\<rparr>) = DirEntry_Name z"
  by (rule ext) (simp add: DirEntry_Name_def split: DirEntry.split)

lemma struct_inv_files [simp]: "struct_inv (z\<lparr>files := m\<rparr>) = struct_inv z"
  by (simp add: struct_inv_def)

lemma names_of_files [simp]: "names_of (z\<lparr>files := m\<rparr>) p = names_of z p"
  by (cases "dirs z p") (simp_all add: names_of_def entries_of_def)






subsection \<open>The record a path opens\<close>







subsection \<open>Records that collide\<close>












end
